theory Spec2Isabelle
  imports Complex_Main "HOL-Library.Log_Nat"
begin

section \<open>Backends and the backend pool\<close>

text \<open>
  \<^verbatim>\<open>HTTPBackend\<close> (internal/loadbalancer/interface.go): the parsed URL (kept as the
  string \<^verbatim>\<open>GetURL\<close> returns), the health flag, the active-connection counter and the
  weight. A Go \<^verbatim>\<open>int\<close> is an integer here. The balancers add and subtract the
  weights of a pool and count connections, which stays far below \<open>2^63\<close>; the rate
  limiter multiplies and adds configured numbers, and there the 64-bit wrap-around
  is written out.
\<close>

record Backend =
  url :: string
  healthy :: bool
  connections :: int
  weight :: int

text \<open>
  \<^verbatim>\<open>NewHTTPBackend\<close>, after \<^verbatim>\<open>url.Parse\<close> has accepted the URL (the constructor
  returns the parse error otherwise): healthy, no connections, a weight \<open>\<le> 0\<close>
  coerced to 1. The first argument stands for the parsed URL, written as the string
  that \<^verbatim>\<open>GetURL\<close> returns for it.
\<close>

definition NewHTTPBackend :: "string \<Rightarrow> int \<Rightarrow> Backend" where
  "NewHTTPBackend backendURL w =
     \<lparr>url = backendURL, healthy = True, connections = 0,
      weight = (if w \<le> 0 then 1 else w)\<rparr>"

definition SetWeight :: "int \<Rightarrow> Backend \<Rightarrow> Backend" where
  "SetWeight w b = b\<lparr>weight := (if w \<le> 0 then 1 else w)\<rparr>"

text \<open>
  The two errors of \<^verbatim>\<open>SelectBackend\<close>: \<^verbatim>\<open>errors.New("no backends available")\<close> and
  \<^verbatim>\<open>errors.New("no healthy backends available")\<close>.
\<close>

datatype lb_error = NoBackend | NoHealthyBackend

text \<open>
  \<^verbatim>\<open>UpdateBackendHealth\<close>, the same loop in all three balancers: the first backend
  whose URL matches gets the flag, the loop returns at once.
\<close>

fun UpdateBackendHealth :: "string \<Rightarrow> bool \<Rightarrow> Backend list \<Rightarrow> Backend list" where
  "UpdateBackendHealth u h [] = []"
| "UpdateBackendHealth u h (b # bs) =
     (if url b = u then b\<lparr>healthy := h\<rparr> # bs else b # UpdateBackendHealth u h bs)"

section \<open>Round-robin balancer\<close>

record RoundRobinBalancer =
  rr_backends :: "Backend list"
  rr_current :: nat


text \<open>
  The \<^verbatim>\<open>for\<close> loop of \<^verbatim>\<open>RoundRobinBalancer.SelectBackend\<close>: read the backend at
  \<^verbatim>\<open>current\<close>, advance \<^verbatim>\<open>current\<close> modulo the pool size, return the backend when
  healthy, give up when \<^verbatim>\<open>current\<close> is back at \<^verbatim>\<open>start\<close>. The result carries the
  new \<^verbatim>\<open>current\<close> and the index that was selected. An index outside the slice
  panics in Go; the model returns \<open>None\<close> there.
\<close>

function rr_loop ::
  "Backend list \<Rightarrow> nat \<Rightarrow> nat \<Rightarrow> ((lb_error + nat \<times> Backend) \<times> nat) option" where
  "rr_loop bs start cur =
     (if \<not> (cur < length bs \<and> start < length bs) then None
      else
        let backend = bs ! cur;
            cur' = (cur + 1) mod length bs
        in if healthy backend then Some (Inr (cur, backend), cur')
           else if cur' = start then Some (Inl NoHealthyBackend, cur')
           else rr_loop bs start cur')"
  by pat_completeness auto
termination
proof (relation "measure (\<lambda>(bs, start, cur).
          if cur < start then start - cur else start + length bs - cur)")
  show "wf (measure (\<lambda>(bs, start, cur).
          if cur < start then start - cur else start + length bs - cur))"
    by simp
next
  fix bs :: "Backend list" and start cur :: nat and backend :: Backend and cur' :: nat
  assume a: "\<not> \<not> (cur < length bs \<and> start < length bs)"
    and c: "cur' = (cur + 1) mod length bs"
    and ne: "cur' \<noteq> start"
  from a have cl: "cur < length bs" and sl: "start < length bs" by simp_all
  show "((bs, start, cur'), (bs, start, cur)) \<in> measure (\<lambda>(bs, start, cur).
          if cur < start then start - cur else start + length bs - cur)"
  proof (cases "cur + 1 = length bs")
    case True
    with c have "cur' = 0" by simp
    with ne True cl sl show ?thesis by auto
  next
    case False
    with cl have "cur + 1 < length bs" by simp
    with c have "cur' = cur + 1" by simp
    with ne cl sl show ?thesis by auto
  qed
qed

declare rr_loop.simps [simp del]

definition rr_SelectBackend ::
  "RoundRobinBalancer \<Rightarrow> ((lb_error + nat \<times> Backend) \<times> RoundRobinBalancer) option" where
  "rr_SelectBackend rb =
     (if length (rr_backends rb) = 0 then Some (Inl NoBackend, rb)
      else case rr_loop (rr_backends rb) (rr_current rb) (rr_current rb) of
             None \<Rightarrow> None
           | Some (res, cur') \<Rightarrow> Some (res, rb\<lparr>rr_current := cur'\<rparr>))"

section \<open>Least-connections balancer\<close>

text \<open>
  The scan of \<^verbatim>\<open>LeastConnectionsBalancer.SelectBackend\<close>, with its two loop variables:
  \<^verbatim>\<open>selectedBackend\<close> (\<open>None\<close> for Go's nil) and \<^verbatim>\<open>minConnections\<close>, which starts
  at the sentinel \<open>-1\<close>.
\<close>

fun lc_scan :: "Backend list \<Rightarrow> Backend option \<Rightarrow> int \<Rightarrow> Backend option \<times> int" where
  "lc_scan [] selectedBackend minConnections = (selectedBackend, minConnections)"
| "lc_scan (backend # bs) selectedBackend minConnections =
     (if \<not> healthy backend then lc_scan bs selectedBackend minConnections
      else if minConnections = -1 \<or> connections backend < minConnections
           then lc_scan bs (Some backend) (connections backend)
           else lc_scan bs selectedBackend minConnections)"

definition lc_SelectBackend :: "Backend list \<Rightarrow> lb_error + Backend" where
  "lc_SelectBackend bs =
     (if length bs = 0 then Inl NoBackend
      else case fst (lc_scan bs None (-1)) of
             None \<Rightarrow> Inl NoHealthyBackend
           | Some b \<Rightarrow> Inr b)"

section \<open>Smooth weighted round-robin balancer\<close>

record WeightedRoundRobinBalancer =
  wrr_backends :: "Backend list"
  currentWeights :: "int list"

definition NewWeightedRoundRobinBalancer :: "Backend list \<Rightarrow> WeightedRoundRobinBalancer" where
  "NewWeightedRoundRobinBalancer bs =
     \<lparr>wrr_backends = bs, currentWeights = replicate (length bs) 0\<rparr>"

text \<open>
  The first loop of \<^verbatim>\<open>WeightedRoundRobinBalancer.SelectBackend\<close>, over the backends
  from index \<open>i\<close> on: an unhealthy backend is skipped; a healthy one adds its weight to
  \<^verbatim>\<open>currentWeights[i]\<close> and becomes the selection when that value is strictly greater
  than \<^verbatim>\<open>maxCurrentWeight\<close>. Both \<^verbatim>\<open>selectedIndex\<close> and \<^verbatim>\<open>maxCurrentWeight\<close> start
  at \<open>-1\<close>. \<^verbatim>\<open>currentWeights\<close> is as long as the pool (the constructor makes it so
  and nothing resizes either), so the indexing stays in range.
\<close>

fun wrr_scan ::
  "Backend list \<Rightarrow> nat \<Rightarrow> int list \<Rightarrow> int \<Rightarrow> int \<Rightarrow> int list \<times> int \<times> int" where
  "wrr_scan [] i cw selectedIndex maxCurrentWeight = (cw, selectedIndex, maxCurrentWeight)"
| "wrr_scan (backend # bs) i cw selectedIndex maxCurrentWeight =
     (if \<not> healthy backend then wrr_scan bs (i + 1) cw selectedIndex maxCurrentWeight
      else
        let cw' = cw[i := cw ! i + weight backend]
        in if cw' ! i > maxCurrentWeight
           then wrr_scan bs (i + 1) cw' (int i) (cw' ! i)
           else wrr_scan bs (i + 1) cw' selectedIndex maxCurrentWeight)"

text \<open>The second loop: the sum of the weights of the healthy backends.\<close>

fun wrr_totalWeight :: "Backend list \<Rightarrow> int \<Rightarrow> int" where
  "wrr_totalWeight [] totalWeight = totalWeight"
| "wrr_totalWeight (backend # bs) totalWeight =
     (if healthy backend then wrr_totalWeight bs (totalWeight + weight backend)
      else wrr_totalWeight bs totalWeight)"

definition wrr_SelectBackend ::
  "WeightedRoundRobinBalancer \<Rightarrow> (lb_error + nat \<times> Backend) \<times> WeightedRoundRobinBalancer" where
  "wrr_SelectBackend wrr =
     (if length (wrr_backends wrr) = 0 then (Inl NoBackend, wrr)
      else
        case wrr_scan (wrr_backends wrr) 0 (currentWeights wrr) (-1) (-1) of
          (cw, selectedIndex, maxCurrentWeight) \<Rightarrow>
            if selectedIndex = -1
            then (Inl NoHealthyBackend, wrr\<lparr>currentWeights := cw\<rparr>)
            else
              let totalWeight = wrr_totalWeight (wrr_backends wrr) 0;
                  k = nat selectedIndex
              in (Inr (k, wrr_backends wrr ! k),
                  wrr\<lparr>currentWeights := cw[k := cw ! k - totalWeight]\<rparr>))"

definition wrr_UpdateBackendHealth ::
  "string \<Rightarrow> bool \<Rightarrow> WeightedRoundRobinBalancer \<Rightarrow> WeightedRoundRobinBalancer" where
  "wrr_UpdateBackendHealth u h wrr =
     wrr\<lparr>wrr_backends := UpdateBackendHealth u h (wrr_backends wrr)\<rparr>"

section \<open>Requests, headers and response writers\<close>

text \<open>
  \<^verbatim>\<open>http.Header\<close> is a map from header names to lists of values. \<^verbatim>\<open>Get\<close>, \<^verbatim>\<open>Set\<close>,
  \<^verbatim>\<open>Add\<close> and \<^verbatim>\<open>Del\<close> canonicalise the name they are given, and the server stores
  the names of an incoming request canonicalised, so a name in the model stands for
  its canonical form.
\<close>

type_synonym Header = "string \<rightharpoonup> string list"

definition Header_Get :: "Header \<Rightarrow> string \<Rightarrow> string" where
  "Header_Get h k = (case h k of None \<Rightarrow> [] | Some [] \<Rightarrow> [] | Some (v # vs) \<Rightarrow> v)"

definition Header_Set :: "string \<Rightarrow> string \<Rightarrow> Header \<Rightarrow> Header" where
  "Header_Set k v h = h(k \<mapsto> [v])"

definition Header_Add :: "string \<Rightarrow> string \<Rightarrow> Header \<Rightarrow> Header" where
  "Header_Add k v h = h(k \<mapsto> (case h k of None \<Rightarrow> [] | Some vs \<Rightarrow> vs) @ [v])"

definition Header_Del :: "string \<Rightarrow> Header \<Rightarrow> Header" where
  "Header_Del k h = h(k := None)"

record Request =
  Method :: string
  URL :: string
  req_Header :: Header
  RemoteAddr :: string

text \<open>
  The \<^verbatim>\<open>http.ResponseWriter\<close> the server hands to the outermost handler, by the
  contract of net/http: the header map stays writable, the first \<^verbatim>\<open>WriteHeader\<close> fixes
  the status (a later call is ignored), and a \<^verbatim>\<open>Write\<close> before any \<^verbatim>\<open>WriteHeader\<close>
  sends status 200 first. \<open>rw_status\<close> is \<open>None\<close> until the status is sent.
\<close>

record ResponseWriter =
  rw_header :: Header
  rw_status :: "int option"
  rw_body :: string

definition NewResponseWriter :: ResponseWriter where
  "NewResponseWriter = \<lparr>rw_header = Map.empty, rw_status = None, rw_body = []\<rparr>"

definition base_WriteHeader :: "int \<Rightarrow> ResponseWriter \<Rightarrow> ResponseWriter" where
  "base_WriteHeader code w =
     (case rw_status w of None \<Rightarrow> w\<lparr>rw_status := Some code\<rparr> | Some s \<Rightarrow> w)"

definition base_Write :: "string \<Rightarrow> ResponseWriter \<Rightarrow> ResponseWriter" where
  "base_Write data w =
     (let w' = (case rw_status w of None \<Rightarrow> base_WriteHeader 200 w | Some s \<Rightarrow> w)
      in w'\<lparr>rw_body := rw_body w' @ data\<rparr>)"

text \<open>
  A handler acts on the writer it is given through the calls of the
  \<^verbatim>\<open>http.ResponseWriter\<close> interface only. A run of a handler on a request is the
  sequence of those calls.
\<close>

datatype rw_op =
    OpHeaderSet string string
  | OpHeaderAdd string string
  | OpHeaderDel string
  | OpWriteHeader int
  | OpWrite string

type_synonym Handler = "Request \<Rightarrow> rw_op list"

fun base_op :: "rw_op \<Rightarrow> ResponseWriter \<Rightarrow> ResponseWriter" where
  "base_op (OpHeaderSet k v) w = w\<lparr>rw_header := Header_Set k v (rw_header w)\<rparr>"
| "base_op (OpHeaderAdd k v) w = w\<lparr>rw_header := Header_Add k v (rw_header w)\<rparr>"
| "base_op (OpHeaderDel k) w = w\<lparr>rw_header := Header_Del k (rw_header w)\<rparr>"
| "base_op (OpWriteHeader code) w = base_WriteHeader code w"
| "base_op (OpWrite data) w = base_Write data w"

fun base_ops :: "rw_op list \<Rightarrow> ResponseWriter \<Rightarrow> ResponseWriter" where
  "base_ops [] w = w"
| "base_ops (x # xs) w = base_ops xs (base_op x w)"

definition ServeHTTP :: "Handler \<Rightarrow> ResponseWriter \<Rightarrow> Request \<Rightarrow> ResponseWriter" where
  "ServeHTTP next w r = base_ops (next r) w"

section \<open>Rate limiter\<close>

text \<open>
  internal/middleware/ratelimit.go. A \<^verbatim>\<open>time.Time\<close> is its monotonic clock reading in
  nanoseconds, a \<^verbatim>\<open>time.Duration\<close> a number of nanoseconds. Every \<^verbatim>\<open>time.Now()\<close> of
  the source is a parameter of the model.
\<close>

record TokenBucket =
  capacity :: int
  tokens :: int
  refillRate :: int
  lastRefill :: int

definition NewTokenBucket :: "int \<Rightarrow> int \<Rightarrow> int \<Rightarrow> TokenBucket" where
  "NewTokenBucket now cap rate =
     \<lparr>capacity = cap, tokens = cap, refillRate = rate, lastRefill = now\<rparr>"

text \<open>
  Go's \<^verbatim>\<open>int\<close> has 64 bits on the platforms the proxy is built for, and integer
  arithmetic wraps around: \<open>wrap64\<close> is the value a 64-bit integer holds for an exact
  result.
\<close>

definition wrap64 :: "int \<Rightarrow> int" where
  "wrap64 x = (x + 9223372036854775808) mod 18446744073709551616 - 9223372036854775808"

text \<open>
  A non-zero \<^verbatim>\<open>float64\<close> is \<open>m * 2^e\<close> or its negative, with an integer \<open>m\<close>,
  \<open>2^52 \<le> m < 2^53\<close>. Every \<^verbatim>\<open>float64\<close> operation returns the exact result rounded
  to the nearest such number, and to the one with the even \<open>m\<close> when two are equally
  near. \<open>floor_log2 x\<close> is the exponent of the greatest power of 2 that is at most
  \<open>x\<close>. Overflow and subnormal numbers are left out: the numbers of this program
  are 0 or between \<open>10^-9\<close> and \<open>2^34\<close> in magnitude.
\<close>

definition round_half_even :: "rat \<Rightarrow> int" where
  "round_half_even x =
     (let f = \<lfloor>x\<rfloor>; r = x - of_int f
      in if r < 1 / 2 then f else if 1 / 2 < r then f + 1 else if even f then f else f + 1)"

definition floor_log2 :: "rat \<Rightarrow> int" where
  "floor_log2 x =
     (if 1 \<le> x then bitlen \<lfloor>x\<rfloor> - 1
      else let k = bitlen \<lfloor>1 / x\<rfloor> - 1 in if x * 2 powi k = 1 then - k else - k - 1)"

definition round_float64 :: "rat \<Rightarrow> rat" where
  "round_float64 x =
     (if x = 0 then 0
      else let e = floor_log2 \<bar>x\<bar> - 52
           in sgn x * of_int (round_half_even (\<bar>x\<bar> * 2 powi (- e))) * 2 powi e)"

text \<open>
  Go's \<^verbatim>\<open>/\<close> and \<^verbatim>\<open>%\<close> on integers truncate towards zero.
\<close>

definition int_quo :: "int \<Rightarrow> int \<Rightarrow> int" where
  "int_quo a b = sgn a * sgn b * (\<bar>a\<bar> div \<bar>b\<bar>)"

definition int_rem :: "int \<Rightarrow> int \<Rightarrow> int" where
  "int_rem a b = sgn a * (\<bar>a\<bar> mod \<bar>b\<bar>)"

text \<open>
  \<^verbatim>\<open>Duration.Seconds\<close> of package \<^verbatim>\<open>time\<close>:
  \<^verbatim>\<open>sec := d / Second; nsec := d % Second; return float64(sec) + float64(nsec)/1e9\<close>.
  The two conversions, the division and the addition each round.
\<close>

definition Seconds :: "int \<Rightarrow> rat" where
  "Seconds d =
     (let sec = int_quo d 1000000000;
          nsec = int_rem d 1000000000
      in round_float64
           (round_float64 (of_int sec) + round_float64 (round_float64 (of_int nsec) / 1000000000)))"

text \<open>
  The conversion of a \<^verbatim>\<open>float64\<close> to \<^verbatim>\<open>int\<close> discards the fraction. The number
  of seconds of a duration is below \<open>2^34\<close>, so the result is in the range of \<^verbatim>\<open>int\<close>.
\<close>

definition int_of_float64 :: "rat \<Rightarrow> int" where
  "int_of_float64 x = (if 0 \<le> x then \<lfloor>x\<rfloor> else - \<lfloor>- x\<rfloor>)"

text \<open>\<^verbatim>\<open>int(elapsed.Seconds())\<close>.\<close>

definition int_Seconds :: "int \<Rightarrow> int" where
  "int_Seconds elapsed = int_of_float64 (Seconds elapsed)"

text \<open>
  \<^verbatim>\<open>Time.Sub\<close> on two readings of the monotonic clock, as package \<^verbatim>\<open>time\<close> computes
  it: the 64-bit difference, replaced by the greatest or the least \<^verbatim>\<open>Duration\<close> when
  the subtraction has overflowed.
\<close>

definition Sub :: "int \<Rightarrow> int \<Rightarrow> int" where
  "Sub t u =
     (let d = wrap64 (t - u)
      in if d < 0 \<and> t > u then 9223372036854775807
         else if d > 0 \<and> t < u then - 9223372036854775808
         else d)"

definition refill :: "int \<Rightarrow> TokenBucket \<Rightarrow> TokenBucket" where
  "refill now tb =
     (let elapsed = Sub now (lastRefill tb);
          tokensToAdd = wrap64 (int_Seconds elapsed * refillRate tb)
      in if tokensToAdd > 0
         then
           let t = wrap64 (tokens tb + tokensToAdd);
               t' = (if t > capacity tb then capacity tb else t)
           in tb\<lparr>tokens := t', lastRefill := now\<rparr>
         else tb)"

definition TryConsume :: "int \<Rightarrow> int \<Rightarrow> TokenBucket \<Rightarrow> bool \<times> TokenBucket" where
  "TryConsume n now tb =
     (let tb' = refill now tb
      in if tokens tb' \<ge> n then (True, tb'\<lparr>tokens := wrap64 (tokens tb' - n)\<rparr>)
         else (False, tb'))"

record RateLimitConfig =
  Capacity :: int
  RefillRate :: int

record RateLimiter =
  buckets :: "string \<rightharpoonup> TokenBucket"
  rl_capacity :: int
  rl_refillRate :: int

definition NewRateLimiter :: "RateLimitConfig \<Rightarrow> RateLimiter" where
  "NewRateLimiter config =
     \<lparr>buckets = Map.empty, rl_capacity = Capacity config, rl_refillRate = RefillRate config\<rparr>"

text \<open>
  \<^verbatim>\<open>getBucket\<close>: the bucket of the client, created full when the map has none. The
  second lookup under the write lock finds what the first found when requests are
  handled one after the other.
\<close>

definition getBucket :: "int \<Rightarrow> string \<Rightarrow> RateLimiter \<Rightarrow> TokenBucket \<times> RateLimiter" where
  "getBucket now clientIP rl =
     (case buckets rl clientIP of
        Some bucket \<Rightarrow> (bucket, rl)
      | None \<Rightarrow>
          let bucket = NewTokenBucket now (rl_capacity rl) (rl_refillRate rl)
          in (bucket, rl\<lparr>buckets := (buckets rl)(clientIP \<mapsto> bucket)\<rparr>))"

text \<open>
  The loop of \<^verbatim>\<open>getClientIP\<close> that looks for the first comma: \<^verbatim>\<open>commaIdx\<close> starts at
  \<^verbatim>\<open>len(xff)\<close> and becomes the byte index of the first \<^verbatim>\<open>','\<close>. The loop ranges over
  the runes of the string with their byte offsets; a comma is a single byte that
  occurs in no multi-byte encoding, so the byte-wise search finds the same index.
\<close>

fun commaIdx_loop :: "string \<Rightarrow> nat \<Rightarrow> nat \<Rightarrow> nat" where
  "commaIdx_loop [] i commaIdx = commaIdx"
| "commaIdx_loop (c # cs) i commaIdx =
     (if c = CHR '','' then i else commaIdx_loop cs (i + 1) commaIdx)"

definition getClientIP :: "Request \<Rightarrow> string" where
  "getClientIP r =
     (let xff = Header_Get (req_Header r) ''X-Forwarded-For''
      in if xff \<noteq> []
         then (if length xff > 0 then take (commaIdx_loop xff 0 (length xff)) xff else xff)
         else
           let xri = Header_Get (req_Header r) ''X-Real-IP''
           in if xri \<noteq> [] then xri else RemoteAddr r)"

text \<open>
  \<^verbatim>\<open>string(rune(rl.capacity))\<close>: the conversion to \<^verbatim>\<open>rune\<close> (an int32) keeps the low
  32 bits, and the conversion of a rune to a string is the UTF-8 encoding of that
  code point, or of U+FFFD when the value is no valid code point.
\<close>

definition rune :: "int \<Rightarrow> int" where
  "rune n = (n + 2147483648) mod 4294967296 - 2147483648"

definition string_of_rune :: "int \<Rightarrow> string" where
  "string_of_rune r =
     (if r < 0 \<or> r > 1114111 \<or> (55296 \<le> r \<and> r \<le> 57343)
        then [char_of (239::int), char_of (191::int), char_of (189::int)]
      else if r \<le> 127 then [char_of r]
      else if r \<le> 2047 then [char_of (192 + r div 64), char_of (128 + r mod 64)]
      else if r \<le> 65535
        then [char_of (224 + r div 4096), char_of (128 + (r div 64) mod 64),
              char_of (128 + r mod 64)]
      else [char_of (240 + r div 262144), char_of (128 + (r div 4096) mod 64),
            char_of (128 + (r div 64) mod 64), char_of (128 + r mod 64)])"

text \<open>
  \<^verbatim>\<open>RateLimiter.Wrap\<close>, the handler it returns, run on one request. \<open>t_new\<close> is the
  clock read by \<^verbatim>\<open>NewTokenBucket\<close> (when a bucket is created), \<open>t_refill\<close> the one
  read by \<^verbatim>\<open>refill\<close>.
\<close>

definition rl_Wrap ::
  "RateLimiter \<Rightarrow> Handler \<Rightarrow> int \<Rightarrow> int \<Rightarrow> ResponseWriter \<Rightarrow> Request
     \<Rightarrow> RateLimiter \<times> ResponseWriter" where
  "rl_Wrap rl next t_new t_refill w r =
     (let clientIP = getClientIP r;
          (bucket, rl1) = getBucket t_new clientIP rl;
          (ok, bucket') = TryConsume 1 t_refill bucket;
          rl2 = rl1\<lparr>buckets := (buckets rl1)(clientIP \<mapsto> bucket')\<rparr>
      in if \<not> ok
         then
           let w1 = w\<lparr>rw_header :=
                      Header_Set ''X-RateLimit-Limit'' (string_of_rune (rune (rl_capacity rl)))
                        (rw_header w)\<rparr>;
               w2 = w1\<lparr>rw_header := Header_Set ''X-RateLimit-Remaining'' ''0'' (rw_header w1)\<rparr>;
               w3 = base_WriteHeader 429 w2
           in (rl2, base_Write ''Rate limit exceeded'' w3)
         else
           let w1 = w\<lparr>rw_header :=
                      Header_Set ''X-RateLimit-Limit'' (string_of_rune (rune (rl_capacity rl)))
                        (rw_header w)\<rparr>
           in (rl2, ServeHTTP next w1 r))"

text \<open>
  \<^verbatim>\<open>strconv.Itoa\<close>, the decimal formatting the metrics middleware uses for the
  status code; the rate limiter does not use it.
\<close>

fun digits :: "nat \<Rightarrow> string" where
  "digits n =
     (if n < 10 then [char_of (48 + n)] else digits (n div 10) @ [char_of (48 + n mod 10)])"

definition Itoa :: "int \<Rightarrow> string" where
  "Itoa n = (if n < 0 then CHR ''-'' # digits (nat (- n)) else digits (nat n))"

section \<open>Forwarder\<close>

text \<open>
  The \<^verbatim>\<open>Director\<close> that \<^verbatim>\<open>NewReverseProxy\<close> installs (internal/proxy/reverse_proxy.go):
  the director of \<^verbatim>\<open>httputil.NewSingleHostReverseProxy\<close> runs first (it belongs to the
  standard library and is a parameter here), then the two headers are set.
\<close>

definition GetURL :: "Backend \<Rightarrow> string" where
  "GetURL b = url b"

definition Director :: "Backend \<Rightarrow> (Request \<Rightarrow> Request) \<Rightarrow> Request \<Rightarrow> Request" where
  "Director backend originalDirector req =
     (let req1 = originalDirector req;
          req2 = req1\<lparr>req_Header := Header_Set ''X-Forwarded-By'' ''go-reverse-proxy'' (req_Header req1)\<rparr>
      in req2\<lparr>req_Header := Header_Set ''X-Backend-URL'' (GetURL backend) (req_Header req2)\<rparr>)"

section \<open>Response cache\<close>

text \<open>
  The cache middleware (\<^verbatim>\<open>Cache\<close>, \<^verbatim>\<open>CacheEntry\<close>, \<^verbatim>\<open>cacheNode\<close>). The doubly-linked
  list between the dummy head and the dummy tail is the list \<open>lru\<close> of the keys of its
  nodes, the node after the head first; \<open>entries\<close> gives the entry of the node a key
  maps to. \<^verbatim>\<open>removeNode\<close> unlinks a node, \<^verbatim>\<open>addToFront\<close> links one after the head.
\<close>

record CacheEntry =
  Body :: string
  Headers :: Header
  StatusCode :: int
  ExpiresAt :: int

record CacheConfig =
  MaxSize :: int
  TTL :: int

record Cache =
  entries :: "string \<rightharpoonup> CacheEntry"
  lru :: "string list"
  maxSize :: int
  ttl :: int
  currentSize :: int

definition NewCache :: "CacheConfig \<Rightarrow> Cache" where
  "NewCache config =
     \<lparr>entries = Map.empty, lru = [], maxSize = MaxSize config, ttl = TTL config,
      currentSize = 0\<rparr>"

definition IsExpired :: "int \<Rightarrow> CacheEntry \<Rightarrow> bool" where
  "IsExpired now ce = (now > ExpiresAt ce)"

definition removeNode :: "string \<Rightarrow> Cache \<Rightarrow> Cache" where
  "removeNode key c = c\<lparr>lru := remove1 key (lru c)\<rparr>"

definition addToFront :: "string \<Rightarrow> Cache \<Rightarrow> Cache" where
  "addToFront key c = c\<lparr>lru := key # lru c\<rparr>"

definition moveToFront :: "string \<Rightarrow> Cache \<Rightarrow> Cache" where
  "moveToFront key c = addToFront key (removeNode key c)"

text \<open>
  \<^verbatim>\<open>evictLRU\<close> takes the node before the dummy tail. On an empty list that node is the
  dummy head, whose \<^verbatim>\<open>prev\<close> is nil, and \<^verbatim>\<open>removeNode\<close> dereferences it: \<open>None\<close>.
\<close>

definition evictLRU :: "Cache \<Rightarrow> Cache option" where
  "evictLRU c =
     (case lru c of
        [] \<Rightarrow> None
      | x # xs \<Rightarrow>
          let k = last (lru c);
              c1 = c\<lparr>lru := butlast (lru c)\<rparr>;
              c2 = c1\<lparr>entries := (entries c1)(k := None)\<rparr>
          in Some (c2\<lparr>currentSize := currentSize c2 - 1\<rparr>))"

definition cache_get :: "string \<Rightarrow> int \<Rightarrow> Cache \<Rightarrow> CacheEntry option \<times> Cache" where
  "cache_get key now c =
     (case entries c key of
        None \<Rightarrow> (None, c)
      | Some entry \<Rightarrow>
          if IsExpired now entry
          then
            let c1 = removeNode key c;
                c2 = c1\<lparr>entries := (entries c1)(key := None)\<rparr>
            in (None, c2\<lparr>currentSize := currentSize c2 - 1\<rparr>)
          else (Some entry, moveToFront key c))"

definition cache_set :: "string \<Rightarrow> CacheEntry \<Rightarrow> Cache \<Rightarrow> Cache option" where
  "cache_set key entry c =
     (case entries c key of
        Some old \<Rightarrow> Some (moveToFront key (c\<lparr>entries := (entries c)(key \<mapsto> entry)\<rparr>))
      | None \<Rightarrow>
          let c1 = c\<lparr>entries := (entries c)(key \<mapsto> entry)\<rparr>;
              c2 = addToFront key c1;
              c3 = c2\<lparr>currentSize := currentSize c2 + 1\<rparr>
          in if currentSize c3 > maxSize c3 then evictLRU c3 else Some c3)"

text \<open>
  \<^verbatim>\<open>generateCacheKey\<close>: the hexadecimal MD5 digest of URL, \<^verbatim>\<open>Accept\<close> and
  \<^verbatim>\<open>Accept-Encoding\<close> joined by \<^verbatim>\<open>|\<close>. The digest function is a parameter.
\<close>

definition generateCacheKey :: "(string \<Rightarrow> string) \<Rightarrow> Request \<Rightarrow> string" where
  "generateCacheKey md5hex r =
     md5hex (URL r @ ''|'' @ Header_Get (req_Header r) ''Accept'' @ ''|''
             @ Header_Get (req_Header r) ''Accept-Encoding'')"

text \<open>
  The \<^verbatim>\<open>responseWriter\<close> of the cache: the writer it wraps, the buffered body, the
  copied headers and the captured status code, which is 0 until \<^verbatim>\<open>WriteHeader\<close> is
  called on the wrapper. \<^verbatim>\<open>Write\<close> buffers and passes the data on, \<^verbatim>\<open>WriteHeader\<close>
  records the code, copies the header map of the wrapped writer key by key and passes
  the code on, \<^verbatim>\<open>Header\<close> is the header map of the wrapped writer.
\<close>

record responseWriter =
  inner :: ResponseWriter
  body :: string
  headers :: Header
  statusCode :: int

definition wrapper_Write :: "string \<Rightarrow> responseWriter \<Rightarrow> responseWriter" where
  "wrapper_Write data rw = rw\<lparr>body := body rw @ data, inner := base_Write data (inner rw)\<rparr>"

definition wrapper_WriteHeader :: "int \<Rightarrow> responseWriter \<Rightarrow> responseWriter" where
  "wrapper_WriteHeader code rw =
     rw\<lparr>statusCode := code,
        headers := headers rw ++ rw_header (inner rw),
        inner := base_WriteHeader code (inner rw)\<rparr>"

fun wrapper_op :: "rw_op \<Rightarrow> responseWriter \<Rightarrow> responseWriter" where
  "wrapper_op (OpHeaderSet k v) rw = rw\<lparr>inner := base_op (OpHeaderSet k v) (inner rw)\<rparr>"
| "wrapper_op (OpHeaderAdd k v) rw = rw\<lparr>inner := base_op (OpHeaderAdd k v) (inner rw)\<rparr>"
| "wrapper_op (OpHeaderDel k) rw = rw\<lparr>inner := base_op (OpHeaderDel k) (inner rw)\<rparr>"
| "wrapper_op (OpWriteHeader code) rw = wrapper_WriteHeader code rw"
| "wrapper_op (OpWrite data) rw = wrapper_Write data rw"

fun wrapper_ops :: "rw_op list \<Rightarrow> responseWriter \<Rightarrow> responseWriter" where
  "wrapper_ops [] rw = rw"
| "wrapper_ops (x # xs) rw = wrapper_ops xs (wrapper_op x rw)"

text \<open>
  \<^verbatim>\<open>serveFromCache\<close>: every value of every cached header is added to the response, then
  \<^verbatim>\<open>X-Cache-Status\<close> is set, the status written and the body sent.
\<close>

definition add_all :: "Header \<Rightarrow> Header \<Rightarrow> Header" where
  "add_all cached h =
     (\<lambda>k. case cached k of
             None \<Rightarrow> h k
           | Some [] \<Rightarrow> h k
           | Some (v # vs) \<Rightarrow> Some ((case h k of None \<Rightarrow> [] | Some ws \<Rightarrow> ws) @ v # vs))"

definition serveFromCache :: "ResponseWriter \<Rightarrow> CacheEntry \<Rightarrow> ResponseWriter" where
  "serveFromCache w entry =
     (let w1 = w\<lparr>rw_header := add_all (Headers entry) (rw_header w)\<rparr>;
          w2 = w1\<lparr>rw_header := Header_Set ''X-Cache-Status'' ''HIT'' (rw_header w1)\<rparr>;
          w3 = base_WriteHeader (StatusCode entry) w2
      in base_Write (Body entry) w3)"

text \<open>
  \<^verbatim>\<open>Cache.Wrap\<close>, the handler it returns, run on one request. \<open>t_get\<close> is the clock
  read by \<^verbatim>\<open>IsExpired\<close> in \<^verbatim>\<open>get\<close>, \<open>t_set\<close> the one read for \<^verbatim>\<open>ExpiresAt\<close> after
  the downstream handler has returned. The result is \<open>None\<close> when \<^verbatim>\<open>evictLRU\<close> panics.
\<close>

definition cache_Wrap ::
  "(string \<Rightarrow> string) \<Rightarrow> Cache \<Rightarrow> Handler \<Rightarrow> int \<Rightarrow> int \<Rightarrow> ResponseWriter \<Rightarrow> Request
     \<Rightarrow> (Cache \<times> ResponseWriter) option" where
  "cache_Wrap md5hex c next t_get t_set w r =
     (if Method r \<noteq> ''GET'' then Some (c, ServeHTTP next w r)
      else
        let cacheKey = generateCacheKey md5hex r
        in case cache_get cacheKey t_get c of
             (Some entry, c1) \<Rightarrow> Some (c1, serveFromCache w entry)
           | (None, c1) \<Rightarrow>
               let wrapper = wrapper_ops (next r)
                               \<lparr>inner = w, body = [], headers = Map.empty, statusCode = 0\<rparr>
               in if statusCode wrapper \<ge> 200 \<and> statusCode wrapper < 300
                  then
                    let entry = \<lparr>Body = body wrapper, Headers = headers wrapper,
                                 StatusCode = statusCode wrapper, ExpiresAt = t_set + ttl c1\<rparr>
                    in (case cache_set cacheKey entry c1 of
                          None \<Rightarrow> None
                        | Some c2 \<Rightarrow> Some (c2, inner wrapper))
                  else Some (c1, inner wrapper))"

text \<open>The operations on the cache state, for runs of any length.\<close>

datatype cache_op = CacheGet string int | CacheSet string CacheEntry

fun cache_step :: "cache_op \<Rightarrow> Cache \<Rightarrow> Cache option" where
  "cache_step (CacheGet key now) c = Some (snd (cache_get key now c))"
| "cache_step (CacheSet key entry) c = cache_set key entry c"

fun cache_run :: "cache_op list \<Rightarrow> Cache \<Rightarrow> Cache option" where
  "cache_run [] c = Some c"
| "cache_run (x # xs) c = (case cache_step x c of None \<Rightarrow> None | Some c' \<Rightarrow> cache_run xs c')"

section \<open>Runs of the round-robin balancer\<close>




section \<open>Auxiliary notions\<close>

text \<open>
  How many probes the loop of the round-robin balancer still makes when it is at index
  \<open>i\<close>, for a sweep that started at \<open>start\<close> over a pool of \<open>n\<close> backends.
\<close>

definition rr_dist :: "nat \<Rightarrow> nat \<Rightarrow> nat \<Rightarrow> nat" where
  "rr_dist n start i = (if i < start then start - i else start + n - i)"

text \<open>
  The size counter is the length of the list, no key is twice in the list, the keys of
  the list are the keys of the map, and the list is no longer than \<^verbatim>\<open>maxSize\<close> (than 0
  when \<^verbatim>\<open>maxSize\<close> is negative).
\<close>

definition cache_invar :: "Cache \<Rightarrow> bool" where
  "cache_invar c =
     (currentSize c = int (length (lru c)) \<and> distinct (lru c) \<and> set (lru c) = dom (entries c)
      \<and> int (length (lru c)) \<le> max 0 (maxSize c))"

text \<open>
  The calls that touch the header map only, the calls that write body bytes, and the
  bytes a run writes.
\<close>

fun is_header_op :: "rw_op \<Rightarrow> bool" where
  "is_header_op (OpHeaderSet k v) = True"
| "is_header_op (OpHeaderAdd k v) = True"
| "is_header_op (OpHeaderDel k) = True"
| "is_header_op (OpWriteHeader code) = False"
| "is_header_op (OpWrite data) = False"

fun is_write_op :: "rw_op \<Rightarrow> bool" where
  "is_write_op (OpWrite data) = True"
| "is_write_op (OpHeaderSet k v) = False"
| "is_write_op (OpHeaderAdd k v) = False"
| "is_write_op (OpHeaderDel k) = False"
| "is_write_op (OpWriteHeader code) = False"

fun written :: "rw_op list \<Rightarrow> string" where
  "written [] = []"
| "written (OpWrite data # xs) = data @ written xs"
| "written (OpHeaderSet k v # xs) = written xs"
| "written (OpHeaderAdd k v # xs) = written xs"
| "written (OpHeaderDel k # xs) = written xs"
| "written (OpWriteHeader code # xs) = written xs"

text \<open>The range of a 64-bit integer.\<close>

definition is_int64 :: "int \<Rightarrow> bool" where
  "is_int64 x = (- 9223372036854775808 \<le> x \<and> x < 9223372036854775808)"

section \<open>The specification's client key\<close>

text \<open>
  The client key as the specification words it: the leftmost address of
  \<^verbatim>\<open>X-Forwarded-For\<close>, else \<^verbatim>\<open>X-Real-IP\<close>, else the remote address, with the white
  space around the address trimmed. These definitions follow the specification, not
  the source; the source has no trimming step.
\<close>

definition is_space :: "char \<Rightarrow> bool" where
  "is_space c =
     (c = CHR '' '' \<or> c = CHR 0x09 \<or> c = CHR 0x0A \<or> c = CHR 0x0B \<or> c = CHR 0x0C
      \<or> c = CHR 0x0D)"

definition spec_trim :: "string \<Rightarrow> string" where
  "spec_trim s = rev (dropWhile is_space (rev (dropWhile is_space s)))"

definition spec_leftmost :: "string \<Rightarrow> string" where
  "spec_leftmost s = takeWhile (\<lambda>c. c \<noteq> CHR '','') s"

definition spec_clientKey :: "Request \<Rightarrow> string" where
  "spec_clientKey r =
     spec_trim
       (if Header_Get (req_Header r) ''X-Forwarded-For'' \<noteq> []
        then spec_leftmost (Header_Get (req_Header r) ''X-Forwarded-For'')
        else if Header_Get (req_Header r) ''X-Real-IP'' \<noteq> []
        then Header_Get (req_Header r) ''X-Real-IP''
        else RemoteAddr r)"

section \<open>The specification's smooth weighted selection\<close>

text \<open>
  The selection as the specification words it (section 4.2.3), for a pool with a
  healthy backend: add the weight to the current weight of every healthy backend, take
  the first index that attains the maximum among the healthy ones, subtract the sum
  of the healthy weights there, return that backend. These definitions follow the
  specification, not the source.
\<close>

definition spec_wrr_add :: "Backend list \<Rightarrow> int list \<Rightarrow> int list" where
  "spec_wrr_add bs current =
     map (\<lambda>(b, c). if healthy b then c + weight b else c) (zip bs current)"

definition spec_healthy_indices :: "Backend list \<Rightarrow> nat list" where
  "spec_healthy_indices bs = filter (\<lambda>i. healthy (bs ! i)) [0..<length bs]"

definition spec_wrr_k :: "Backend list \<Rightarrow> int list \<Rightarrow> nat" where
  "spec_wrr_k bs current =
     (let hs = spec_healthy_indices bs;
          m = fold max (map (\<lambda>i. current ! i) hs) (current ! hd hs)
      in hd (filter (\<lambda>i. current ! i = m) hs))"

definition spec_wrr_total :: "Backend list \<Rightarrow> int" where
  "spec_wrr_total bs = sum_list (map weight (filter healthy bs))"

definition spec_wrr_select :: "Backend list \<Rightarrow> int list \<Rightarrow> (nat \<times> Backend) \<times> int list" where
  "spec_wrr_select bs current =
     (let current1 = spec_wrr_add bs current;
          k = spec_wrr_k bs current1
      in ((k, bs ! k), current1[k := current1 ! k - spec_wrr_total bs]))"

section \<open>Concrete inputs\<close>

definition ex_backend :: Backend where
  "ex_backend = NewHTTPBackend ''http://backend1.example.com'' 1"

definition ex_request :: Request where
  "ex_request =
     \<lparr>Method = ''GET'', URL = ''/a'', req_Header = Map.empty,
      RemoteAddr = ''10.0.0.7:51234''\<rparr>"

definition ex_request_xff :: Request where
  "ex_request_xff =
     \<lparr>Method = ''GET'', URL = ''/a'',
      req_Header = [''X-Forwarded-For'' \<mapsto> [''203.0.113.9 , 10.0.0.1'']],
      RemoteAddr = ''10.0.0.7:51234''\<rparr>"

definition ex_bucket :: TokenBucket where
  "ex_bucket = \<lparr>capacity = 100, tokens = 40, refillRate = 10, lastRefill = 1000000000\<rparr>"

definition ex_entry :: CacheEntry where
  "ex_entry = \<lparr>Body = ''ok'', Headers = Map.empty, StatusCode = 200, ExpiresAt = 60\<rparr>"

definition ex_cache :: Cache where
  "ex_cache = NewCache \<lparr>MaxSize = 10, TTL = 300000000000\<rparr>"

text \<open>A handler that writes the status and a body, and one that writes the body only.\<close>

definition ex_handler_ok :: Handler where
  "ex_handler_ok r = [OpWriteHeader 200, OpWrite ''ok'']"

definition ex_handler_body_only :: Handler where
  "ex_handler_body_only r = [OpWrite ''ok'']"

text \<open>
  Scenario 9 of the specification: capacity 2, refill rate 1, three requests of one
  client within 100 ms.
\<close>

definition ex_limiter :: RateLimiter where
  "ex_limiter = NewRateLimiter \<lparr>Capacity = 2, RefillRate = 1\<rparr>"

definition ex_limiter_after2 :: RateLimiter where
  "ex_limiter_after2 =
     fst (rl_Wrap
            (fst (rl_Wrap ex_limiter ex_handler_ok 0 1000 NewResponseWriter ex_request))
            ex_handler_ok 40000000 40001000 NewResponseWriter ex_request)"

definition ex_third_response :: ResponseWriter where
  "ex_third_response =
     snd (rl_Wrap ex_limiter_after2 ex_handler_ok 90000000 90001000 NewResponseWriter ex_request)"

text \<open>
  A bucket left alone for \<open>2^24\<close> seconds, a bucket with the refill rate \<open>2^62\<close>, and a
  limiter with the greatest capacity an \<^verbatim>\<open>int\<close> can hold.
\<close>

definition ex_bucket_idle :: TokenBucket where
  "ex_bucket_idle = \<lparr>capacity = 100000000, tokens = 0, refillRate = 1, lastRefill = 0\<rparr>"

definition ex_bucket_fast :: TokenBucket where
  "ex_bucket_fast =
     \<lparr>capacity = 100, tokens = 0, refillRate = 4611686018427387904, lastRefill = 0\<rparr>"


definition ex_pool3 :: "Backend list" where
  "ex_pool3 =
     [NewHTTPBackend ''http://b1.example.com'' 1, NewHTTPBackend ''http://b2.example.com'' 1,
      NewHTTPBackend ''http://b3.example.com'' 1]"

definition ex_pool2 :: "Backend list" where
  "ex_pool2 =
     [NewHTTPBackend ''http://b1.example.com'' 1, NewHTTPBackend ''http://b2.example.com'' 3]"

text \<open>
  Three backends of weight 1: one selection, then the health checker reports the
  second and the third backend down.
\<close>

definition ex_wrr3 :: WeightedRoundRobinBalancer where
  "ex_wrr3 =
     wrr_UpdateBackendHealth ''http://b3.example.com'' False
       (wrr_UpdateBackendHealth ''http://b2.example.com'' False
          (snd (wrr_SelectBackend (NewWeightedRoundRobinBalancer ex_pool3))))"

text \<open>
  Two backends of weights 1 and 3: two selections, then the health checker reports the
  second backend down.
\<close>

definition ex_wrr2 :: WeightedRoundRobinBalancer where
  "ex_wrr2 =
     wrr_UpdateBackendHealth ''http://b2.example.com'' False
       (snd (wrr_SelectBackend (snd (wrr_SelectBackend (NewWeightedRoundRobinBalancer ex_pool2)))))"

section \<open>The forwarder's headers\<close>

text \<open>
  C3, as the code has it: on every request the director leaves \<^verbatim>\<open>X-Forwarded-By\<close> with
  the value \<^verbatim>\<open>go-reverse-proxy\<close> and \<^verbatim>\<open>X-Backend-URL\<close> with the URL of the selected
  backend, whatever the standard director did to the request before.
\<close>

theorem Director_headers:
  "Header_Get (req_Header (Director backend originalDirector req)) ''X-Forwarded-By''
     = ''go-reverse-proxy''
   \<and> Header_Get (req_Header (Director backend originalDirector req)) ''X-Backend-URL''
     = GetURL backend"
  by (simp add: Director_def Header_Get_def Header_Set_def Let_def)

text \<open>
  C3 as stated fails: the value of \<^verbatim>\<open>X-Forwarded-By\<close> is not \<^verbatim>\<open>proxy\<close>.
\<close>

theorem Director_forwarded_by_counterexample:
  "Header_Get (req_Header (Director ex_backend id ex_request)) ''X-Forwarded-By'' \<noteq> ''proxy''"
  by (simp add: Director_def Header_Get_def Header_Set_def Let_def)

section \<open>The client key of the rate limiter\<close>

lemma commaIdx_loop_takeWhile:
  "commaIdx_loop xs i (i + length xs) = i + length (takeWhile (\<lambda>c. c \<noteq> CHR '','') xs)"
proof (induction xs arbitrary: i)
  case Nil
  then show ?case by simp
next
  case (Cons c cs)
  have "commaIdx_loop cs (i + 1) (i + length (c # cs))
          = commaIdx_loop cs (i + 1) ((i + 1) + length cs)"
    by simp
  with Cons.IH [of "i + 1"] show ?case by simp
qed

lemma take_length_takeWhile: "take (length (takeWhile P xs)) xs = takeWhile P xs"
  by (induction xs) auto

lemma take_commaIdx:
  "take (commaIdx_loop xs 0 (length xs)) xs = takeWhile (\<lambda>c. c \<noteq> CHR '','') xs"
  using commaIdx_loop_takeWhile [of xs 0] by (simp add: take_length_takeWhile)

text \<open>
  C4, as the code has it: the client key is the value of \<^verbatim>\<open>X-Forwarded-For\<close> up to its
  first comma when that header is non-empty, else the value of \<^verbatim>\<open>X-Real-IP\<close> when that
  is non-empty, else the remote address; the chosen string is returned as it is, with
  no trimming.
\<close>

theorem getClientIP_priority:
  "getClientIP r =
     (if Header_Get (req_Header r) ''X-Forwarded-For'' \<noteq> []
      then takeWhile (\<lambda>c. c \<noteq> CHR '','') (Header_Get (req_Header r) ''X-Forwarded-For'')
      else if Header_Get (req_Header r) ''X-Real-IP'' \<noteq> []
      then Header_Get (req_Header r) ''X-Real-IP''
      else RemoteAddr r)"
  by (simp add: getClientIP_def Let_def take_commaIdx)

text \<open>
  C4 as stated fails: for \<^verbatim>\<open>X-Forwarded-For: 203.0.113.9 , 10.0.0.1\<close> the key keeps the
  space before the comma, where the specification's key is trimmed.
\<close>

theorem getClientIP_trim_counterexample:
  "getClientIP ex_request_xff = ''203.0.113.9 ''
   \<and> spec_clientKey ex_request_xff = ''203.0.113.9''
   \<and> getClientIP ex_request_xff \<noteq> spec_clientKey ex_request_xff"
  by (simp add: getClientIP_def spec_clientKey_def spec_trim_def spec_leftmost_def is_space_def
        ex_request_xff_def Header_Get_def Let_def)

section \<open>Token bucket\<close>

subsection \<open>The whole seconds of a duration\<close>

text \<open>
  Rounding to the nearest integer, the exponent of a positive number, and the two
  roundings \<^verbatim>\<open>Seconds\<close> depends on: an integer below \<open>2^53\<close> is a \<^verbatim>\<open>float64\<close>, and
  the rounded quotient of a fraction of a second is off by at most \<open>2^-54\<close>.
\<close>

lemma round_half_even_of_int: "round_half_even (of_int k) = k"
  by (simp add: round_half_even_def)

lemma round_half_even_floor_le: "\<lfloor>x\<rfloor> \<le> round_half_even x"
  by (simp add: round_half_even_def Let_def)

lemma round_half_even_ge: "of_int k \<le> x \<Longrightarrow> k \<le> round_half_even x"
proof -
  assume "of_int k \<le> x"
  then have "k \<le> \<lfloor>x\<rfloor>" by (simp add: le_floor_iff)
  with round_half_even_floor_le [of x] show ?thesis by (rule order_trans [rotated])
qed

lemma round_half_even_upper: "of_int (round_half_even x) \<le> x + 1 / 2"
proof -
  have f: "of_int \<lfloor>x\<rfloor> \<le> x" by simp
  show ?thesis
  proof (cases "x - of_int \<lfloor>x\<rfloor> < 1 / 2")
    case True
    then have "round_half_even x = \<lfloor>x\<rfloor>" by (simp add: round_half_even_def Let_def)
    then show ?thesis using of_int_floor_le [of x] by linarith
  next
    case False
    then have "x - of_int \<lfloor>x\<rfloor> \<ge> 1 / 2" by simp
    moreover have "round_half_even x \<le> \<lfloor>x\<rfloor> + 1" by (simp add: round_half_even_def Let_def)
    then have "(of_int (round_half_even x) :: rat) \<le> of_int (\<lfloor>x\<rfloor> + 1)" by (simp only: of_int_le_iff)
    ultimately show ?thesis by simp
  qed
qed

lemma round_half_even_less: "x < of_int k - 1 / 2 \<Longrightarrow> round_half_even x < k"
proof -
  assume "x < of_int k - 1 / 2"
  with round_half_even_upper [of x] have "(of_int (round_half_even x) :: rat) < of_int k" by simp
  then show ?thesis by simp
qed

lemma floor_log2_bounds:
  assumes "0 < x"
  shows "2 powi floor_log2 x \<le> x \<and> x < 2 powi (floor_log2 x + 1)"
proof (cases "1 \<le> x")
  case True
  let ?n = "\<lfloor>x\<rfloor>"
  from True have n: "0 < ?n" by simp
  from bitlen_bounds [OF n] have b: "2 ^ nat (bitlen ?n - 1) \<le> ?n" "?n < 2 ^ nat (bitlen ?n)"
    by simp_all
  from n have b1: "1 \<le> bitlen ?n" using bitlen_eq_zero_iff [of ?n] bitlen_nonneg [of ?n] by linarith
  have lo: "(2::rat) powi (bitlen ?n - 1) \<le> x"
  proof -
    have "(2::rat) powi (bitlen ?n - 1) = 2 ^ nat (bitlen ?n - 1)"
      using b1 by (simp add: power_int_def)
    also have "\<dots> = of_int (2 ^ nat (bitlen ?n - 1))" by simp
    also have "\<dots> \<le> of_int ?n" using b(1) by (simp only: of_int_le_iff)
    also have "\<dots> \<le> x" by simp
    finally show ?thesis .
  qed
  have hi: "x < (2::rat) powi (bitlen ?n)"
  proof -
    from b(2) have "?n + 1 \<le> 2 ^ nat (bitlen ?n)" by simp
    then have "(of_int (?n + 1) :: rat) \<le> of_int (2 ^ nat (bitlen ?n))" by (simp only: of_int_le_iff)
    moreover have "x < of_int (?n + 1)" by simp linarith
    ultimately have "x < of_int (2 ^ nat (bitlen ?n))" by linarith
    also have "\<dots> = (2::rat) powi (bitlen ?n)" using b1 by (simp add: power_int_def)
    finally show ?thesis .
  qed
  from lo hi True show ?thesis by (simp add: floor_log2_def)
next
  case False
  then have x1: "x < 1" by simp
  let ?y = "1 / x"
  let ?n = "\<lfloor>?y\<rfloor>"
  define k where "k = bitlen ?n - 1"
  from assms x1 have y1: "1 < ?y" by simp
  then have n: "0 < ?n" by simp
  from bitlen_bounds [OF n] have b: "2 ^ nat (bitlen ?n - 1) \<le> ?n" "?n < 2 ^ nat (bitlen ?n)"
    by simp_all
  from n have b1: "1 \<le> bitlen ?n" using bitlen_eq_zero_iff [of ?n] bitlen_nonneg [of ?n] by linarith
  then have k0: "0 \<le> k" by (simp add: k_def)
  have lo: "(2::rat) powi k \<le> ?y"
  proof -
    have "(2::rat) powi k = of_int (2 ^ nat k)"
      using k0 by (simp add: power_int_def)
    also have "\<dots> \<le> of_int ?n" using b(1) unfolding k_def by (simp only: of_int_le_iff)
    also have "\<dots> \<le> ?y" by simp
    finally show ?thesis .
  qed
  have hi: "?y < (2::rat) powi (k + 1)"
  proof -
    from b(2) have "?n + 1 \<le> 2 ^ nat (bitlen ?n)" by simp
    then have "(of_int (?n + 1) :: rat) \<le> of_int (2 ^ nat (bitlen ?n))" by (simp only: of_int_le_iff)
    moreover have "?y < of_int (?n + 1)" by simp linarith
    ultimately have "?y < of_int (2 ^ nat (bitlen ?n))" by linarith
    also have "\<dots> = (2::rat) powi (k + 1)" using b1 by (simp add: power_int_def k_def)
    finally show ?thesis .
  qed
  have p: "(0::rat) < 2 powi k" by (simp add: zero_less_power_int)
  have k1: "(2::rat) powi (k + 1) = 2 * 2 powi k" by (simp add: power_int_add)
  from lo assms p have xle: "x * 2 powi k \<le> 1"
    by (simp add: field_simps)
  from hi have "?y < 2 * 2 powi k" by (simp only: k1)
  with assms p have xgt: "1 < 2 * (x * 2 powi k)"
    by (simp add: field_simps)
  have m1: "(2::rat) powi (- k) = 1 / 2 powi k" by (rule power_int_minus_divide)
  have m2: "(2::rat) powi (- k - 1) = 1 / (2 * 2 powi k)"
  proof -
    have "- k - 1 = - (k + 1)" by simp
    then have "(2::rat) powi (- k - 1) = 2 powi (- (k + 1))" by (simp only:)
    also have "\<dots> = 1 / 2 powi (k + 1)" by (rule power_int_minus_divide)
    also have "\<dots> = 1 / (2 * 2 powi k)" by (simp only: k1)
    finally show ?thesis .
  qed
  have m3: "(2::rat) powi (- k + 1) = 2 / 2 powi k"
  proof -
    have "(2::rat) powi (- k + 1) = 2 powi (- k) * 2 powi 1" by (rule power_int_add) simp
    also have "\<dots> = 1 / 2 powi k * 2" by (simp only: m1 power_int_1_right)
    finally show ?thesis by simp
  qed
  have il: "floor_log2 x = (if x * 2 powi k = 1 then - k else - k - 1)"
    using False by (simp add: floor_log2_def Let_def k_def)
  show ?thesis
  proof (cases "x * 2 powi k = 1")
    case True
    then have eq: "x = 1 / 2 powi k" using p by (simp add: field_simps)
    have "x < 2 powi (- k + 1)" unfolding m3 eq using p by (simp add: field_simps)
    moreover have "2 powi (- k) \<le> x" using eq m1 by simp
    ultimately show ?thesis using True by (simp add: il)
  next
    case ne: False
    with xle have "x * 2 powi k < 1" by simp
    then have a: "x < 2 powi (- k)" unfolding m1 using p by (simp add: field_simps)
    from xgt have b: "2 powi (- k - 1) \<le> x" unfolding m2 using p by (simp add: field_simps)
    from a b ne show ?thesis by (simp add: il)
  qed
qed

lemma powi_two_less: "(2::rat) powi a \<le> x \<Longrightarrow> x < 2 powi b \<Longrightarrow> a < b"
proof (rule ccontr)
  assume a: "(2::rat) powi a \<le> x" "x < 2 powi b" "\<not> a < b"
  then have "b \<le> a" by simp
  then have "(2::rat) powi b \<le> 2 powi a" by (rule power_int_increasing) simp
  with a show False by simp
qed

lemma powi_cancel: "(2::rat) powi a * 2 powi (- a) = 1"
proof -
  have "(2::rat) powi (a + - a) = 2 powi a * 2 powi (- a)" by (rule power_int_add) simp
  then show ?thesis by simp
qed

lemma round_float64_pos:
  "0 < x \<Longrightarrow>
   round_float64 x = of_int (round_half_even (x * 2 powi (52 - floor_log2 x))) * 2 powi (floor_log2 x - 52)"
  by (simp add: round_float64_def Let_def)

lemma powi_nat: "0 \<le> a \<Longrightarrow> (2::rat) powi a = of_int (2 ^ nat a)"
  by (simp add: power_int_def)

lemma round_float64_of_int:
  assumes "0 \<le> n" and "n < 9007199254740992"
  shows "round_float64 (of_int n) = of_int n"
proof (cases "n = 0")
  case True
  then show ?thesis by (simp add: round_float64_def)
next
  case False
  with assms(1) have pos: "(0::rat) < of_int n" by simp
  define E where "E = floor_log2 (of_int n)"
  from floor_log2_bounds [OF pos] have lo: "2 powi E \<le> (of_int n :: rat)" by (simp add: E_def)
  have "(of_int n :: rat) < of_int 9007199254740992" using assms(2) by (simp only: of_int_less_iff)
  also have "\<dots> = 2 powi 53" by simp
  finally have "E < 53" using lo by (rule powi_two_less [rotated])
  then have a: "0 \<le> 52 - E" by simp
  have m: "round_half_even (of_int n * 2 powi (52 - E)) = n * 2 ^ nat (52 - E)"
    by (simp only: powi_nat [OF a] of_int_mult [symmetric] round_half_even_of_int)
  have "52 - E = - (E - 52)" by simp
  then have c: "(2::rat) powi (52 - E) * 2 powi (E - 52) = 1"
    using powi_cancel [of "52 - E"] by simp
  have "round_float64 (of_int n) = of_int (n * 2 ^ nat (52 - E)) * 2 powi (E - 52)"
    using round_float64_pos [OF pos] by (simp only: E_def [symmetric] m)
  also have "\<dots> = of_int n * (2 powi (52 - E) * 2 powi (E - 52))"
    by (simp only: of_int_mult powi_nat [OF a] mult.assoc)
  finally show ?thesis by (simp only: c mult_1_right)
qed

lemma round_float64_fraction:
  assumes "0 < y" and "y < 1"
  shows "0 \<le> round_float64 y \<and> round_float64 y \<le> y + 1 / 18014398509481984"
proof -
  define E where "E = floor_log2 y"
  from floor_log2_bounds [OF assms(1)] have lo: "2 powi E \<le> y" by (simp add: E_def)
  have "y < 2 powi 0" using assms(2) by simp
  with lo have "E < 0" by (rule powi_two_less)
  then have e: "E - 52 \<le> - 53" by simp
  have p: "(0::rat) < 2 powi (52 - E)" "(0::rat) < 2 powi (E - 52)"
    by (simp_all add: zero_less_power_int)
  have "52 - E = - (E - 52)" by simp
  then have c: "(2::rat) powi (52 - E) * 2 powi (E - 52) = 1"
    using powi_cancel [of "52 - E"] by simp
  define m where "m = round_half_even (y * 2 powi (52 - E))"
  have r: "round_float64 y = of_int m * 2 powi (E - 52)"
    using round_float64_pos [OF assms(1)] by (simp only: E_def [symmetric] m_def)
  have "(of_int 0 :: rat) \<le> y * 2 powi (52 - E)" using assms(1) p by simp
  then have m0: "0 \<le> m" unfolding m_def by (rule round_half_even_ge)
  have "(of_int m :: rat) \<le> y * 2 powi (52 - E) + 1 / 2" unfolding m_def by (rule round_half_even_upper)
  then have "of_int m * 2 powi (E - 52) \<le> (y * 2 powi (52 - E) + 1 / 2) * 2 powi (E - 52)"
    using p(2) by (simp only: mult_le_cancel_right_pos)
  also have "\<dots> = y * (2 powi (52 - E) * 2 powi (E - 52)) + 2 powi (E - 52) / 2"
    by (simp add: algebra_simps)
  also have "\<dots> = y + 2 powi (E - 52) / 2" by (simp only: c mult_1_right)
  finally have u: "round_float64 y \<le> y + 2 powi (E - 52) / 2" by (simp only: r)
  have "(2::rat) powi (E - 52) \<le> 2 powi (- 53)" using e by (rule power_int_increasing) simp
  also have "\<dots> = 1 / 9007199254740992" by (simp add: power_int_minus_divide)
  finally have "(2::rat) powi (E - 52) / 2 \<le> 1 / 18014398509481984" by simp
  with u have "round_float64 y \<le> y + 1 / 18014398509481984" by linarith
  moreover have "0 \<le> round_float64 y" using m0 p(2) by (simp add: r)
  ultimately show ?thesis by simp
qed

lemma floor_round_float64_add:
  assumes sec: "0 \<le> sec" "sec < 16777216"
    and q: "0 \<le> q" "q < 1 - 1 / 1073741824"
    and pos: "0 < of_int sec + q"
  shows "\<lfloor>round_float64 (of_int sec + q)\<rfloor> = sec"
proof -
  define s where "s = of_int sec + q"
  define E where "E = floor_log2 s"
  from pos have spos: "0 < s" by (simp add: s_def)
  from floor_log2_bounds [OF spos] have lo: "2 powi E \<le> s" by (simp add: E_def)
  from sec(2) have "sec + 1 \<le> 16777216" by simp
  then have "(of_int (sec + 1) :: rat) \<le> of_int 16777216" by (simp only: of_int_le_iff)
  then have s1: "(of_int sec :: rat) + 1 \<le> 16777216" by simp
  with q(2) have "s < 16777216" unfolding s_def by linarith
  also have "(16777216 :: rat) = 2 powi 24" by simp
  finally have "E < 24" using lo by (rule powi_two_less [rotated])
  then have a: "0 \<le> 52 - E" and n29: "29 \<le> nat (52 - E)" by simp_all
  define P :: int where "P = 2 ^ nat (52 - E)"
  have Ppos: "0 < P" by (simp add: P_def)
  have "(2::int) ^ 29 \<le> 2 ^ nat (52 - E)" using n29 by (rule power_increasing) simp
  then have P29: "536870912 \<le> P" by (simp add: P_def)
  then have P29r: "(536870912 :: rat) \<le> of_int P"
    using of_int_le_iff [of 536870912 P, where ?'a = rat] by simp
  have Pr: "(2::rat) powi (52 - E) = of_int P" by (simp only: powi_nat [OF a] P_def)
  have "52 - E = - (E - 52)" by simp
  then have "(2::rat) powi (52 - E) * 2 powi (E - 52) = 1"
    using powi_cancel [of "52 - E"] by simp
  then have inv: "(2::rat) powi (E - 52) = 1 / of_int P"
    using Ppos by (simp add: Pr field_simps)
  define m where "m = round_half_even (s * of_int P)"
  have r: "round_float64 s = of_int m / of_int P"
    using round_float64_pos [OF spos] by (simp add: E_def [symmetric] Pr inv m_def)
  have Prp: "(0::rat) < of_int P" using Ppos by simp
  have "(of_int (sec * P) :: rat) \<le> s * of_int P"
    using q(1) Prp by (simp add: s_def algebra_simps)
  then have mlo: "sec * P \<le> m" unfolding m_def by (rule round_half_even_ge)
  have "s * of_int P < (of_int sec + 1 - 1 / 1073741824) * of_int P"
    using q(2) Prp by (simp add: s_def)
  also have "\<dots> = of_int ((sec + 1) * P) - of_int P / 1073741824"
    by (simp add: algebra_simps)
  also have "\<dots> \<le> of_int ((sec + 1) * P) - 1 / 2" using P29r by simp
  finally have mhi: "m < (sec + 1) * P" unfolding m_def by (rule round_half_even_less)
  from mlo have "(of_int (sec * P) :: rat) \<le> of_int m" by (simp only: of_int_le_iff)
  then have v1: "of_int sec \<le> round_float64 s" using Prp by (simp add: r field_simps)
  from mhi have "(of_int m :: rat) < of_int ((sec + 1) * P)" by (simp only: of_int_less_iff)
  then have v2: "round_float64 s < of_int sec + 1" using Prp by (simp add: r field_simps)
  from v1 v2 show ?thesis unfolding s_def by (rule floor_unique)
qed

text \<open>
  Below \<open>2^24\<close> seconds (about 194 days) the sum in \<^verbatim>\<open>Seconds\<close> is never rounded up
  to the next whole number, so \<^verbatim>\<open>int(elapsed.Seconds())\<close> is the number of whole
  seconds elapsed. From \<open>2^24\<close> seconds on, a duration that ends within a few
  nanoseconds before a whole second is counted as that second.
\<close>

lemma int_Seconds_floor:
  assumes "0 \<le> d" and "d < 16777216000000000"
  shows "int_Seconds d = d div 1000000000"
proof -
  define sec where "sec = d div 1000000000"
  define nsec where "nsec = d mod 1000000000"
  have td: "int_quo d 1000000000 = sec" "int_rem d 1000000000 = nsec"
    using assms(1) by (cases "d = 0"; simp add: int_quo_def int_rem_def sec_def nsec_def)+
  have sec: "0 \<le> sec" "sec < 16777216" using assms by (simp_all add: sec_def)
  have nsec: "0 \<le> nsec" "nsec \<le> 999999999" by (simp_all add: nsec_def)
  have e1: "round_float64 (of_int sec) = of_int sec" using sec by (simp add: round_float64_of_int)
  have e2: "round_float64 (of_int nsec) = of_int nsec" using nsec by (simp add: round_float64_of_int)
  define q where "q = round_float64 (of_int nsec / 1000000000)"
  have q: "0 \<le> q \<and> q < 1 - 1 / 1073741824"
  proof (cases "nsec = 0")
    case True
    then show ?thesis by (simp add: q_def round_float64_def)
  next
    case False
    with nsec(1) have "0 < nsec" by simp
    then have y0: "(0::rat) < of_int nsec / 1000000000" by simp
    from nsec(2) have "(of_int nsec :: rat) \<le> of_int 999999999" by (simp only: of_int_le_iff)
    then have y1: "(of_int nsec :: rat) / 1000000000 \<le> 999999999 / 1000000000" by simp
    then have y2: "(of_int nsec :: rat) / 1000000000 < 1" by simp
    from round_float64_fraction [OF y0 y2] y1 show ?thesis unfolding q_def by simp
  qed
  have S: "Seconds d = round_float64 (of_int sec + q)"
    by (simp add: Seconds_def td e1 e2 q_def Let_def)
  have "\<lfloor>Seconds d\<rfloor> = sec \<and> 0 \<le> Seconds d"
  proof (cases "of_int sec + q = 0")
    case True
    with sec(1) q have "sec = 0" by simp
    with True show ?thesis by (simp add: S round_float64_def)
  next
    case False
    with sec(1) q have pos: "0 < of_int sec + q" by simp
    from q have q1: "0 \<le> q" and q2: "q < 1 - 1 / 1073741824" by simp_all
    have f: "\<lfloor>round_float64 (of_int sec + q)\<rfloor> = sec"
      using sec q1 q2 pos by (rule floor_round_float64_add)
    have "0 \<le> \<lfloor>round_float64 (of_int sec + q)\<rfloor>" using f sec(1) by simp
    then have "0 \<le> round_float64 (of_int sec + q)" by simp
    with f show ?thesis by (simp add: S)
  qed
  then show ?thesis by (simp add: int_Seconds_def int_of_float64_def sec_def)
qed

lemma int_Seconds_rounds_up: "int_Seconds 16777216999999999 = 16777217"
  by code_simp

subsection \<open>Refill\<close>

lemma wrap64_id:
  "- 9223372036854775808 \<le> x \<Longrightarrow> x < 9223372036854775808 \<Longrightarrow> wrap64 x = x"
  by (simp add: wrap64_def)

lemma wrap64_le: "- 9223372036854775808 \<le> x \<Longrightarrow> wrap64 x \<le> x"
proof -
  assume "- 9223372036854775808 \<le> x"
  then have "0 \<le> x + 9223372036854775808" by simp
  then have "(x + 9223372036854775808) mod 18446744073709551616 \<le> x + 9223372036854775808"
    by (rule zmod_le_nonneg_dividend)
  then show ?thesis by (simp add: wrap64_def)
qed

lemma wrap64_range: "- 9223372036854775808 \<le> wrap64 x \<and> wrap64 x < 9223372036854775808"
  by (simp add: wrap64_def)

lemma wrap64_overflow:
  assumes "9223372036854775808 \<le> x" and "x < 27670116110564327424"
  shows "wrap64 x = x - 18446744073709551616"
proof -
  have "(x + 9223372036854775808) mod 18446744073709551616
          = (x + 9223372036854775808 - 18446744073709551616) mod 18446744073709551616"
    by (simp only: minus_mod_self2)
  also have "\<dots> = x + 9223372036854775808 - 18446744073709551616"
    using assms by (intro mod_pos_pos_trivial) simp_all
  finally show ?thesis by (simp add: wrap64_def)
qed

lemma Sub_exact:
  assumes "- 9223372036854775808 \<le> t - u" and "t - u < 9223372036854775808"
  shows "Sub t u = t - u"
proof -
  have w: "wrap64 (t - u) = t - u" using assms by (rule wrap64_id)
  show ?thesis by (auto simp: Sub_def w Let_def)
qed

lemma refill_same_second:
  assumes "lastRefill tb \<le> now" and "now - lastRefill tb < 1000000000"
  shows "refill now tb = tb"
proof -
  from assms have s: "Sub now (lastRefill tb) = now - lastRefill tb" by (simp add: Sub_exact)
  from assms have "int_Seconds (now - lastRefill tb) = (now - lastRefill tb) div 1000000000"
    by (simp add: int_Seconds_floor)
  also from assms have "\<dots> = 0" by simp
  finally show ?thesis by (simp add: refill_def s Let_def wrap64_def)
qed

text \<open>
  A new bucket holds at most its capacity, and \<^verbatim>\<open>refill\<close> and \<^verbatim>\<open>TryConsume\<close> keep it
  so: every bucket the rate limiter works with satisfies \<open>tokens \<le> capacity\<close>.
\<close>

lemma NewTokenBucket_within_capacity:
  "tokens (NewTokenBucket now cap rate) \<le> capacity (NewTokenBucket now cap rate)"
  by (simp add: NewTokenBucket_def)

lemma refill_within_capacity:
  "tokens tb \<le> capacity tb \<Longrightarrow> tokens (refill now tb) \<le> capacity (refill now tb)"
  by (simp add: refill_def Let_def)

lemma TryConsume_within_capacity:
  assumes "tokens tb \<le> capacity tb" and "0 \<le> n"
  shows "tokens (snd (TryConsume n now tb)) \<le> capacity (snd (TryConsume n now tb))"
proof (cases "n \<le> tokens (refill now tb)")
  case True
  with assms(2) have "wrap64 (tokens (refill now tb) - n) \<le> tokens (refill now tb) - n"
    by (simp add: wrap64_le)
  with refill_within_capacity [OF assms(1), of now] assms(2) True show ?thesis
    by (simp add: TryConsume_def Let_def)
next
  case False
  with refill_within_capacity [OF assms(1), of now] show ?thesis
    by (simp add: TryConsume_def Let_def)
qed

text \<open>
  C5, as the code has it: a refill at time \<open>now\<close>, not before \<open>lastRefill\<close> and less than
  \<open>2^24\<close> seconds after it, of a bucket that holds at most its capacity, where the
  product and the sum of the refill fit in 64 bits. With \<open>tokensToAdd\<close> the whole
  seconds elapsed (the floor of the elapsed time in seconds) times the refill rate:
  the bucket gains \<open>tokensToAdd\<close> tokens, cut at the capacity, when that amount is
  positive and none otherwise; \<open>lastRefill\<close> becomes \<open>now\<close> when the amount is positive
  and stays otherwise, so it moves if and only if the amount is positive; and the
  bucket holds at most its capacity afterwards.
\<close>

theorem refill_whole_seconds:
  assumes "lastRefill tb \<le> now" and "now - lastRefill tb < 16777216000000000"
    and "tokens tb \<le> capacity tb"
    and "is_int64 (((now - lastRefill tb) div 1000000000) * refillRate tb)"
    and "is_int64 (tokens tb + max 0 (((now - lastRefill tb) div 1000000000) * refillRate tb))"
  shows "let tokensToAdd = ((now - lastRefill tb) div 1000000000) * refillRate tb;
             tb' = refill now tb
         in tokens tb' = (if tokensToAdd > 0 then min (tokens tb + tokensToAdd) (capacity tb)
                          else tokens tb)
            \<and> lastRefill tb' = (if tokensToAdd > 0 then now else lastRefill tb)
            \<and> (lastRefill tb' \<noteq> lastRefill tb \<longleftrightarrow> tokensToAdd > 0)
            \<and> capacity tb' = capacity tb
            \<and> tokens tb' \<le> capacity tb'"
proof -
  define A where "A = ((now - lastRefill tb) div 1000000000) * refillRate tb"
  from assms(1) have d: "0 \<le> now - lastRefill tb" by simp
  from d assms(2) have sub: "Sub now (lastRefill tb) = now - lastRefill tb"
    by (simp add: Sub_exact)
  from d assms(2) have "int_Seconds (now - lastRefill tb) = (now - lastRefill tb) div 1000000000"
    by (rule int_Seconds_floor)
  then have sec: "int_Seconds (now - lastRefill tb) * refillRate tb = A" by (simp add: A_def)
  from assms(4) have wA: "wrap64 A = A" by (simp add: A_def is_int64_def wrap64_id)
  have wS: "wrap64 (tokens tb + A) = tokens tb + A" if "0 < A"
  proof -
    from that have "max 0 A = A" by simp
    with assms(5) have "is_int64 (tokens tb + A)" by (simp add: A_def)
    then show ?thesis by (simp add: is_int64_def wrap64_id)
  qed
  have r: "refill now tb =
             (if 0 < A
              then tb\<lparr>tokens := (if capacity tb < tokens tb + A then capacity tb
                                 else tokens tb + A),
                      lastRefill := now\<rparr>
              else tb)"
    by (simp add: refill_def Let_def sub sec wA wS)
  have adv: "now \<noteq> lastRefill tb" if "0 < A" using that by (auto simp: A_def)
  have "tokens (refill now tb) = (if A > 0 then min (tokens tb + A) (capacity tb) else tokens tb)
        \<and> lastRefill (refill now tb) = (if A > 0 then now else lastRefill tb)
        \<and> (lastRefill (refill now tb) \<noteq> lastRefill tb \<longleftrightarrow> A > 0)
        \<and> capacity (refill now tb) = capacity tb
        \<and> tokens (refill now tb) \<le> capacity (refill now tb)"
    using assms(3) adv by (auto simp: r min_def)
  then show ?thesis unfolding Let_def A_def .
qed

theorem refill_whole_seconds_witness:
  "lastRefill ex_bucket \<le> 3500000000 \<and> tokens ex_bucket \<le> capacity ex_bucket
   \<and> tokens (refill 3500000000 ex_bucket) = 60
   \<and> lastRefill (refill 3500000000 ex_bucket) = 3500000000
   \<and> tokens (refill 1999999999 ex_bucket) = 40
   \<and> lastRefill (refill 1999999999 ex_bucket) = 1000000000
   \<and> tokens (refill 11000000000 ex_bucket) = 100"
proof -
  have h1: "lastRefill ex_bucket \<le> 3500000000" "lastRefill ex_bucket \<le> 1999999999"
    "lastRefill ex_bucket \<le> 11000000000"
    by (simp_all add: ex_bucket_def)
  have h2: "3500000000 - lastRefill ex_bucket < 16777216000000000"
    "1999999999 - lastRefill ex_bucket < 16777216000000000"
    "11000000000 - lastRefill ex_bucket < 16777216000000000"
    by (simp_all add: ex_bucket_def)
  have h3: "tokens ex_bucket \<le> capacity ex_bucket" by (simp add: ex_bucket_def)
  have h4: "is_int64 (((3500000000 - lastRefill ex_bucket) div 1000000000) * refillRate ex_bucket)"
    "is_int64 (((1999999999 - lastRefill ex_bucket) div 1000000000) * refillRate ex_bucket)"
    "is_int64 (((11000000000 - lastRefill ex_bucket) div 1000000000) * refillRate ex_bucket)"
    by (simp_all add: ex_bucket_def is_int64_def)
  have h5: "is_int64 (tokens ex_bucket
              + max 0 (((3500000000 - lastRefill ex_bucket) div 1000000000) * refillRate ex_bucket))"
    "is_int64 (tokens ex_bucket
              + max 0 (((1999999999 - lastRefill ex_bucket) div 1000000000) * refillRate ex_bucket))"
    "is_int64 (tokens ex_bucket
              + max 0 (((11000000000 - lastRefill ex_bucket) div 1000000000) * refillRate ex_bucket))"
    by (simp_all add: ex_bucket_def is_int64_def)
  show ?thesis
    using h1 h3 refill_whole_seconds [OF h1(1) h2(1) h3 h4(1) h5(1)]
      refill_whole_seconds [OF h1(2) h2(2) h3 h4(2) h5(2)]
      refill_whole_seconds [OF h1(3) h2(3) h3 h4(3) h5(3)]
    by (simp add: ex_bucket_def Let_def)
qed

text \<open>
  C5 as stated fails in two ways. A bucket of refill rate 1 that is refilled
  16777216.999999999 seconds after its last refill gains 16777217 tokens, one more
  than the whole seconds elapsed: the sum in \<^verbatim>\<open>Seconds\<close> is rounded up to 16777217.
  And for a bucket of refill rate \<open>2^62\<close> that is refilled 2 seconds after its last
  refill, the product \<open>2^63\<close> wraps around to \<open>-2^63\<close>: the amount the claim speaks
  of is positive, yet no token is added and \<open>lastRefill\<close> stays.
\<close>

theorem refill_whole_seconds_counterexample:
  "lastRefill ex_bucket_idle \<le> 16777216999999999
   \<and> tokens ex_bucket_idle \<le> capacity ex_bucket_idle
   \<and> ((16777216999999999 - lastRefill ex_bucket_idle) div 1000000000)
       * refillRate ex_bucket_idle = 16777216
   \<and> tokens (refill 16777216999999999 ex_bucket_idle) - tokens ex_bucket_idle = 16777217
   \<and> lastRefill ex_bucket_fast \<le> 2000000000
   \<and> tokens ex_bucket_fast \<le> capacity ex_bucket_fast
   \<and> 0 < ((2000000000 - lastRefill ex_bucket_fast) div 1000000000) * refillRate ex_bucket_fast
   \<and> tokens (refill 2000000000 ex_bucket_fast) = tokens ex_bucket_fast
   \<and> lastRefill (refill 2000000000 ex_bucket_fast) = lastRefill ex_bucket_fast"
  by code_simp

section \<open>The first request of a client\<close>

lemma refill_new_bucket:
  assumes "1 \<le> cap"
    and "cap + max 0 (wrap64 (int_Seconds (Sub t_refill t_new) * rate)) < 9223372036854775808"
  shows "tokens (refill t_refill (NewTokenBucket t_new cap rate)) = cap"
proof (cases "0 < wrap64 (int_Seconds (Sub t_refill t_new) * rate)")
  case True
  with assms
  have "wrap64 (cap + wrap64 (int_Seconds (Sub t_refill t_new) * rate))
          = cap + wrap64 (int_Seconds (Sub t_refill t_new) * rate)"
    by (simp add: wrap64_id)
  with True show ?thesis by (simp add: refill_def NewTokenBucket_def Let_def)
next
  case False
  then show ?thesis by (simp add: refill_def NewTokenBucket_def Let_def)
qed

lemma refill_new_bucket_overflow:
  assumes "1 \<le> cap" and "cap < 9223372036854775808"
    and "9223372036854775808 \<le> cap + max 0 (wrap64 (int_Seconds (Sub t_refill t_new) * rate))"
  shows "tokens (refill t_refill (NewTokenBucket t_new cap rate)) < 0"
proof -
  define A where "A = wrap64 (int_Seconds (Sub t_refill t_new) * rate)"
  from assms(2) assms(3) have pos: "0 < A" by (simp add: A_def max_def split: if_splits)
  with assms(3) have lo: "9223372036854775808 \<le> cap + A" by (simp add: A_def)
  from wrap64_range [of "int_Seconds (Sub t_refill t_new) * rate"]
  have Ahi: "A < 9223372036854775808" by (simp add: A_def)
  with assms(2) have hi: "cap + A < 27670116110564327424" by simp
  from wrap64_overflow [OF lo hi] Ahi assms(1) assms(2)
  have w: "wrap64 (cap + A) < 0" "\<not> cap < wrap64 (cap + A)" by simp_all
  show ?thesis
    using pos w by (simp add: refill_def NewTokenBucket_def Let_def A_def [symmetric])
qed


lemma NewTokenBucket_full:
  "tokens (NewTokenBucket now cap rate) = cap \<and> capacity (NewTokenBucket now cap rate) = cap"
  by (simp add: NewTokenBucket_def)

text \<open>
  For a capacity between 1 and \<open>2^63 - 1\<close>, the first request of a client is admitted
  exactly when the capacity and the tokens that its refill adds stay together below
  \<open>2^63\<close>.
\<close>

lemma first_TryConsume_iff:
  assumes "buckets rl (getClientIP r) = None" and "1 \<le> rl_capacity rl"
    and "rl_capacity rl < 9223372036854775808"
  shows "fst (TryConsume 1 t_refill (fst (getBucket t_new (getClientIP r) rl)))
         \<longleftrightarrow> rl_capacity rl
               + max 0 (wrap64 (int_Seconds (Sub t_refill t_new) * rl_refillRate rl))
             < 9223372036854775808"
proof -
  let ?b = "NewTokenBucket t_new (rl_capacity rl) (rl_refillRate rl)"
  have g: "fst (getBucket t_new (getClientIP r) rl) = ?b"
    using assms(1) by (simp add: getBucket_def Let_def)
  have t: "fst (TryConsume 1 t_refill ?b) \<longleftrightarrow> 1 \<le> tokens (refill t_refill ?b)"
    by (simp add: TryConsume_def Let_def)
  show ?thesis
  proof (cases "rl_capacity rl
                  + max 0 (wrap64 (int_Seconds (Sub t_refill t_new) * rl_refillRate rl))
                < 9223372036854775808")
    case True
    from refill_new_bucket [OF assms(2) True] assms(2) True show ?thesis by (simp add: g t)
  next
    case False
    then have "9223372036854775808
                 \<le> rl_capacity rl
                     + max 0 (wrap64 (int_Seconds (Sub t_refill t_new) * rl_refillRate rl))"
      by simp
    from refill_new_bucket_overflow [OF assms(2) assms(3) this] False show ?thesis
      by (simp add: g t)
  qed
qed




section \<open>The response to a rejected request\<close>

text \<open>
  Every request that finds no token is answered with status 429, the body
  \<^verbatim>\<open>Rate limit exceeded\<close> and \<^verbatim>\<open>X-RateLimit-Remaining: 0\<close>; the value of
  \<^verbatim>\<open>X-RateLimit-Limit\<close> is the capacity converted to a rune and then to a string.
\<close>

lemma rl_Wrap_rejected:
  assumes rej: "\<not> fst (TryConsume 1 t_refill (fst (getBucket t_new (getClientIP r) rl)))"
    and st: "rw_status w = None"
  shows "rw_status (snd (rl_Wrap rl next t_new t_refill w r)) = Some 429
    \<and> rw_body (snd (rl_Wrap rl next t_new t_refill w r)) = rw_body w @ ''Rate limit exceeded''
    \<and> Header_Get (rw_header (snd (rl_Wrap rl next t_new t_refill w r))) ''X-RateLimit-Remaining''
        = ''0''
    \<and> Header_Get (rw_header (snd (rl_Wrap rl next t_new t_refill w r))) ''X-RateLimit-Limit''
        = string_of_rune (rune (rl_capacity rl))"
proof -
  obtain bucket rl1 where g: "getBucket t_new (getClientIP r) rl = (bucket, rl1)"
    by (cases "getBucket t_new (getClientIP r) rl")
  obtain ok bucket' where t: "TryConsume 1 t_refill bucket = (ok, bucket')"
    by (cases "TryConsume 1 t_refill bucket")
  from rej g t have ok: "\<not> ok" by simp
  show ?thesis
    using ok st
    by (simp add: rl_Wrap_def g t Let_def base_WriteHeader_def base_Write_def Header_Get_def
          Header_Set_def)
qed

lemma TryConsume_rejects_iff:
  "\<not> fst (TryConsume 1 now tb) \<longleftrightarrow> tokens (refill now tb) < 1"
  by (simp add: TryConsume_def Let_def)

lemma getClientIP_ex_request: "getClientIP ex_request = ''10.0.0.7:51234''"
  by (simp add: getClientIP_def ex_request_def Header_Get_def)

lemma ex_limiter_after2_bucket:
  "buckets ex_limiter_after2 ''10.0.0.7:51234''
     = Some \<lparr>capacity = 2, tokens = 0, refillRate = 1, lastRefill = 0\<rparr>"
  by (simp add: ex_limiter_after2_def ex_limiter_def NewRateLimiter_def rl_Wrap_def
        getClientIP_ex_request getBucket_def NewTokenBucket_def TryConsume_def
        refill_same_second wrap64_def Let_def)

lemma ex_limiter_after2_capacity: "rl_capacity ex_limiter_after2 = 2"
  by (simp add: ex_limiter_after2_def ex_limiter_def NewRateLimiter_def rl_Wrap_def
        getClientIP_ex_request getBucket_def NewTokenBucket_def TryConsume_def
        refill_same_second wrap64_def Let_def)

lemma string_of_rune_2: "string_of_rune (rune 2) = [CHR 0x02]"
  by code_simp

lemma string_of_rune_100: "string_of_rune (rune 100) = ''d''"
  by code_simp

lemma Itoa_2: "Itoa 2 = ''2''"
  by code_simp

text \<open>
  C2 on scenario 9 of the specification: the third request within 100 ms against a
  capacity of 2 is rejected with status 429, the body \<^verbatim>\<open>Rate limit exceeded\<close> and
  \<^verbatim>\<open>X-RateLimit-Remaining: 0\<close>, but the value of \<^verbatim>\<open>X-RateLimit-Limit\<close> is the single
  character with code 2, not the decimal string \<^verbatim>\<open>2\<close>. For the default capacity 100
  the same conversion gives the letter \<^verbatim>\<open>d\<close>.
\<close>

theorem rate_limit_header_is_code_point:
  "rw_status ex_third_response = Some 429
   \<and> rw_body ex_third_response = ''Rate limit exceeded''
   \<and> Header_Get (rw_header ex_third_response) ''X-RateLimit-Remaining'' = ''0''
   \<and> Header_Get (rw_header ex_third_response) ''X-RateLimit-Limit'' = [CHR 0x02]
   \<and> Header_Get (rw_header ex_third_response) ''X-RateLimit-Limit'' \<noteq> Itoa 2
   \<and> string_of_rune (rune 100) = ''d''"
  by (simp add: ex_third_response_def rl_Wrap_def getClientIP_ex_request getBucket_def
        ex_limiter_after2_bucket ex_limiter_after2_capacity string_of_rune_2 string_of_rune_100
        Itoa_2 TryConsume_def refill_same_second Let_def Header_Get_def Header_Set_def
        base_WriteHeader_def base_Write_def NewResponseWriter_def)

section \<open>The size of the cache\<close>

lemma cache_invarI:
  "currentSize c = int (length (lru c)) \<Longrightarrow> distinct (lru c) \<Longrightarrow> set (lru c) = dom (entries c)
   \<Longrightarrow> int (length (lru c)) \<le> max 0 (maxSize c) \<Longrightarrow> cache_invar c"
  by (simp add: cache_invar_def)

lemma cache_invar_NewCache: "cache_invar (NewCache config)"
  by (simp add: cache_invar_def NewCache_def)

lemma set_butlast_distinct:
  assumes "distinct xs" and "xs \<noteq> []"
  shows "set (butlast xs) = set xs - {last xs}"
proof -
  from assms(2) have e: "butlast xs @ [last xs] = xs" by (rule append_butlast_last_id)
  with assms(1) have "distinct (butlast xs @ [last xs])" by simp
  then have n: "last xs \<notin> set (butlast xs)" by simp
  from e have "set xs = set (butlast xs) \<union> {last xs}"
    by (metis set_append list.set(1) list.set(2))
  with n show ?thesis by blast
qed

lemma length_remove1_mem: "x \<in> set xs \<Longrightarrow> int (length (remove1 x xs)) = int (length xs) - 1"
proof -
  assume x: "x \<in> set xs"
  then have "int (length xs - 1) = int (length xs) - 1" by (cases xs) simp_all
  with x show ?thesis by (simp add: length_remove1)
qed

lemma cache_get_expired:
  "entries c key = Some entry \<Longrightarrow> IsExpired now entry \<Longrightarrow>
   cache_get key now c =
     (None, c\<lparr>lru := remove1 key (lru c), entries := (entries c)(key := None),
              currentSize := currentSize c - 1\<rparr>)"
  by (simp add: cache_get_def removeNode_def Let_def)

lemma cache_get_hit:
  "entries c key = Some entry \<Longrightarrow> \<not> IsExpired now entry \<Longrightarrow>
   cache_get key now c = (Some entry, c\<lparr>lru := key # remove1 key (lru c)\<rparr>)"
  by (simp add: cache_get_def moveToFront_def removeNode_def addToFront_def)

lemma cache_get_absent: "entries c key = None \<Longrightarrow> cache_get key now c = (None, c)"
  by (simp add: cache_get_def)

lemma cache_get_invar:
  assumes "cache_invar c"
  shows "cache_invar (snd (cache_get key now c))"
proof (cases "entries c key")
  case None
  with assms show ?thesis by (simp add: cache_get_absent)
next
  case (Some entry)
  from assms have cs: "currentSize c = int (length (lru c))" and d: "distinct (lru c)"
    and s: "set (lru c) = dom (entries c)" and m: "int (length (lru c)) \<le> max 0 (maxSize c)"
    by (simp_all add: cache_invar_def)
  from Some s have k: "key \<in> set (lru c)" by auto
  note l = length_remove1_mem [OF k]
  show ?thesis
  proof (cases "IsExpired now entry")
    case True
    show ?thesis
      unfolding cache_get_expired [OF Some True] snd_conv
    proof (rule cache_invarI)
      show "currentSize (c\<lparr>lru := remove1 key (lru c), entries := (entries c)(key := None),
              currentSize := currentSize c - 1\<rparr>) = int (length (lru (c\<lparr>lru := remove1 key (lru c), entries := (entries c)(key := None),
              currentSize := currentSize c - 1\<rparr>)))"
        using cs l by simp
    qed (use d s m l in simp_all)
  next
    case False
    show ?thesis
      unfolding cache_get_hit [OF Some False] snd_conv
    proof (rule cache_invarI)
      show "set (lru (c\<lparr>lru := key # remove1 key (lru c)\<rparr>)) = dom (entries (c\<lparr>lru := key # remove1 key (lru c)\<rparr>))"
        using s k d by auto
    qed (use cs d m l in simp_all)
  qed
qed

lemma cache_set_update:
  "entries c key = Some old \<Longrightarrow>
   cache_set key entry c =
     Some (c\<lparr>entries := (entries c)(key \<mapsto> entry), lru := key # remove1 key (lru c)\<rparr>)"
  by (simp add: cache_set_def moveToFront_def removeNode_def addToFront_def)

lemma cache_set_insert:
  "entries c key = None \<Longrightarrow> \<not> currentSize c + 1 > maxSize c \<Longrightarrow>
   cache_set key entry c =
     Some (c\<lparr>entries := (entries c)(key \<mapsto> entry), lru := key # lru c,
             currentSize := currentSize c + 1\<rparr>)"
  by (simp add: cache_set_def addToFront_def Let_def)

lemma cache_set_insert_evict:
  "entries c key = None \<Longrightarrow> currentSize c + 1 > maxSize c \<Longrightarrow>
   cache_set key entry c =
     Some (c\<lparr>entries := ((entries c)(key \<mapsto> entry))(last (key # lru c) := None),
             lru := butlast (key # lru c),
             currentSize := currentSize c\<rparr>)"
  by (simp add: cache_set_def addToFront_def evictLRU_def Let_def)

lemma cache_set_invar:
  assumes "cache_invar c"
  shows "\<exists>c'. cache_set key entry c = Some c' \<and> cache_invar c' \<and> maxSize c' = maxSize c"
proof -
  from assms have cs: "currentSize c = int (length (lru c))" and d: "distinct (lru c)"
    and s: "set (lru c) = dom (entries c)" and m: "int (length (lru c)) \<le> max 0 (maxSize c)"
    by (simp_all add: cache_invar_def)
  show ?thesis
  proof (cases "entries c key")
    case (Some old)
    from Some s have k: "key \<in> set (lru c)" by auto
    note l = length_remove1_mem [OF k]
    let ?c' = "c\<lparr>entries := (entries c)(key \<mapsto> entry), lru := key # remove1 key (lru c)\<rparr>"
    have "cache_invar ?c'"
    proof (rule cache_invarI)
      show "set (lru ?c') = dom (entries ?c')" using s k d by auto
    qed (use cs d m l in simp_all)
    then show ?thesis by (simp add: cache_set_update [OF Some])
  next
    case None
    from None s have k: "key \<notin> set (lru c)" by auto
    show ?thesis
    proof (cases "currentSize c + 1 > maxSize c")
      case False
      let ?c' = "c\<lparr>entries := (entries c)(key \<mapsto> entry), lru := key # lru c,
                    currentSize := currentSize c + 1\<rparr>"
      have "cache_invar ?c'"
      proof (rule cache_invarI)
        show "int (length (lru ?c')) \<le> max 0 (maxSize ?c')" using False cs by simp
      qed (use cs d s k in simp_all)
      then show ?thesis by (simp add: cache_set_insert [OF None False])
    next
      case True
      let ?xs = "key # lru c"
      let ?c' = "c\<lparr>entries := ((entries c)(key \<mapsto> entry))(last ?xs := None),
                    lru := butlast ?xs, currentSize := currentSize c\<rparr>"
      have dx: "distinct ?xs" using k d by simp
      have sb: "set (butlast ?xs) = set ?xs - {last ?xs}"
        using dx by (rule set_butlast_distinct) simp
      have "cache_invar ?c'"
      proof (rule cache_invarI)
        show "distinct (lru ?c')" using dx distinct_butlast [OF dx] by simp
        show "set (lru ?c') = dom (entries ?c')" using sb s by simp
        show "currentSize ?c' = int (length (lru ?c'))" using cs by simp
        show "int (length (lru ?c')) \<le> max 0 (maxSize ?c')" using m by simp
      qed
      then show ?thesis by (simp add: cache_set_insert_evict [OF None True])
    qed
  qed
qed

lemma cache_get_maxSize: "maxSize (snd (cache_get key now c)) = maxSize c"
  by (simp add: cache_get_def moveToFront_def removeNode_def addToFront_def Let_def
        split: option.splits)

lemma cache_run_invar:
  "cache_invar c \<Longrightarrow> \<exists>c'. cache_run ops c = Some c' \<and> cache_invar c' \<and> maxSize c' = maxSize c"
proof (induction ops arbitrary: c)
  case Nil
  then show ?case by simp
next
  case (Cons x xs)
  have "\<exists>c1. cache_step x c = Some c1 \<and> cache_invar c1 \<and> maxSize c1 = maxSize c"
  proof (cases x)
    case (CacheGet key now)
    with cache_get_invar [OF Cons.prems, of key now] show ?thesis
      by (simp add: cache_get_maxSize)
  next
    case (CacheSet key entry)
    with cache_set_invar [OF Cons.prems, of key entry] show ?thesis by simp
  qed
  then obtain c1 where c1: "cache_step x c = Some c1" "cache_invar c1" "maxSize c1 = maxSize c"
    by blast
  from Cons.IH [OF c1(2)] c1(1) c1(3) show ?case by simp
qed

text \<open>
  C7, as the code has it: from the empty cache of any configuration, every sequence of
  lookups and insertions runs through (no eviction meets an empty list) and leaves at
  most \<^verbatim>\<open>maxSize\<close> entries in the map, and none when \<^verbatim>\<open>maxSize\<close> is negative. Every
  prefix of a sequence is a sequence, so the bound holds after each operation.
\<close>

theorem cache_run_size_bound:
  "\<exists>c. cache_run ops (NewCache config) = Some c
       \<and> int (card (dom (entries c))) \<le> max 0 (MaxSize config)"
proof -
  from cache_run_invar [OF cache_invar_NewCache, of ops config]
  obtain c where c: "cache_run ops (NewCache config) = Some c" "cache_invar c"
    "maxSize c = maxSize (NewCache config)" by blast
  from c(2) have "card (dom (entries c)) = length (lru c)"
    by (metis cache_invar_def distinct_card)
  with c(2) c(3) have "int (card (dom (entries c))) \<le> max 0 (MaxSize config)"
    by (simp add: cache_invar_def NewCache_def)
  with c(1) show ?thesis by blast
qed

text \<open>
  C7 as stated fails for a negative \<^verbatim>\<open>maxSize\<close>: an insertion into the empty cache with
  \<^verbatim>\<open>maxSize = -1\<close> is evicted at once, and the 0 entries left are more than \<open>-1\<close>.
\<close>

theorem cache_size_bound_counterexample:
  "cache_run [CacheSet ''k'' ex_entry] (NewCache \<lparr>MaxSize = -1, TTL = 60\<rparr>)
     = Some (NewCache \<lparr>MaxSize = -1, TTL = 60\<rparr>)
   \<and> \<not> int (card (dom (entries (NewCache \<lparr>MaxSize = -1, TTL = 60\<rparr>))))
         \<le> maxSize (NewCache \<lparr>MaxSize = -1, TTL = 60\<rparr>)"
  by (simp add: NewCache_def cache_set_def addToFront_def evictLRU_def Let_def)

section \<open>What the cache captures and stores\<close>

text \<open>
  The wrapper passes every call on to the writer it wraps. For a handler that sets
  headers, then calls \<^verbatim>\<open>WriteHeader\<close> once, then writes its body, on a writer whose
  status is not yet sent, the wrapper captures the status, the headers and the body
  of the response.
\<close>

lemma wrapper_ops_append: "wrapper_ops (xs @ ys) rw = wrapper_ops ys (wrapper_ops xs rw)"
  by (induction xs arbitrary: rw) simp_all

lemma base_ops_append: "base_ops (xs @ ys) w = base_ops ys (base_ops xs w)"
  by (induction xs arbitrary: w) simp_all

lemma wrapper_op_inner: "inner (wrapper_op x rw) = base_op x (inner rw)"
  by (cases x) (simp_all add: wrapper_WriteHeader_def wrapper_Write_def)

lemma wrapper_ops_inner: "inner (wrapper_ops xs rw) = base_ops xs (inner rw)"
  by (induction xs arbitrary: rw) (simp_all add: wrapper_op_inner)

lemma wrapper_ops_header_only:
  "list_all is_header_op hs \<Longrightarrow> wrapper_ops hs rw = rw\<lparr>inner := base_ops hs (inner rw)\<rparr>"
proof (induction hs arbitrary: rw)
  case Nil
  then show ?case by simp
next
  case (Cons x xs)
  then show ?case by (cases x) simp_all
qed

lemma base_ops_header_only:
  "list_all is_header_op hs \<Longrightarrow>
   rw_status (base_ops hs w) = rw_status w \<and> rw_body (base_ops hs w) = rw_body w"
proof (induction hs arbitrary: w)
  case Nil
  then show ?case by simp
next
  case (Cons x xs)
  then show ?case by (cases x) simp_all
qed

lemma base_ops_writes:
  "list_all is_write_op ws \<Longrightarrow> rw_status w = Some s \<Longrightarrow>
   base_ops ws w = w\<lparr>rw_body := rw_body w @ written ws\<rparr>"
proof (induction ws arbitrary: w)
  case Nil
  then show ?case by simp
next
  case (Cons x xs)
  then show ?case by (cases x) (simp_all add: base_Write_def)
qed

lemma wrapper_ops_writes:
  "list_all is_write_op ws \<Longrightarrow>
   wrapper_ops ws rw = rw\<lparr>body := body rw @ written ws, inner := base_ops ws (inner rw)\<rparr>"
proof (induction ws arbitrary: rw)
  case Nil
  then show ?case by simp
next
  case (Cons x xs)
  then show ?case by (cases x) (simp_all add: wrapper_Write_def)
qed

lemma wrapper_captures_response:
  assumes hs: "list_all is_header_op hs" and ws: "list_all is_write_op ws"
    and st: "rw_status w = None"
  shows "statusCode (wrapper_ops (hs @ OpWriteHeader s # ws)
                       \<lparr>inner = w, body = [], headers = Map.empty, statusCode = 0\<rparr>) = s
    \<and> body (wrapper_ops (hs @ OpWriteHeader s # ws)
                       \<lparr>inner = w, body = [], headers = Map.empty, statusCode = 0\<rparr>) = written ws
    \<and> headers (wrapper_ops (hs @ OpWriteHeader s # ws)
                       \<lparr>inner = w, body = [], headers = Map.empty, statusCode = 0\<rparr>)
        = rw_header (base_ops hs w)
    \<and> base_ops (hs @ OpWriteHeader s # ws) w
        = (base_ops hs w)\<lparr>rw_status := Some s, rw_body := rw_body w @ written ws\<rparr>"
proof -
  let ?rw0 = "\<lparr>inner = w, body = [], headers = Map.empty, statusCode = 0\<rparr>"
  let ?w1 = "base_ops hs w"
  from base_ops_header_only [OF hs, of w] st
  have s1: "rw_status ?w1 = None" and b1: "rw_body ?w1 = rw_body w" by simp_all
  have h: "wrapper_ops hs ?rw0 = ?rw0\<lparr>inner := ?w1\<rparr>"
    using wrapper_ops_header_only [OF hs, of ?rw0] by simp
  have wh: "wrapper_WriteHeader s \<lparr>inner = ?w1, body = [], headers = Map.empty, statusCode = 0\<rparr>
              = \<lparr>inner = ?w1\<lparr>rw_status := Some s\<rparr>, body = [], headers = rw_header ?w1,
                 statusCode = s\<rparr>"
    using s1 by (simp add: wrapper_WriteHeader_def base_WriteHeader_def)
  have w2: "base_ops ws (?w1\<lparr>rw_status := Some s\<rparr>)
              = ?w1\<lparr>rw_status := Some s, rw_body := rw_body w @ written ws\<rparr>"
    using base_ops_writes [OF ws, of "?w1\<lparr>rw_status := Some s\<rparr>" s] b1 by simp
  have wr: "wrapper_ops (hs @ OpWriteHeader s # ws) ?rw0
              = \<lparr>inner = ?w1\<lparr>rw_status := Some s, rw_body := rw_body w @ written ws\<rparr>,
                 body = written ws, headers = rw_header ?w1, statusCode = s\<rparr>"
    by (simp add: wrapper_ops_append h wh wrapper_ops_writes [OF ws] w2)
  have bo: "base_ops (hs @ OpWriteHeader s # ws) w
              = ?w1\<lparr>rw_status := Some s, rw_body := rw_body w @ written ws\<rparr>"
    using s1 by (simp add: base_ops_append base_WriteHeader_def w2)
  show ?thesis by (simp add: wr bo)
qed

text \<open>
  A \<^verbatim>\<open>GET\<close> request that misses the cache: the downstream handler runs on the writer,
  and the cache gets a new entry at the head of the list, with the tail evicted when
  the size exceeds \<^verbatim>\<open>maxSize\<close>, exactly when the status the wrapper captured (the
  argument of the handler's last \<^verbatim>\<open>WriteHeader\<close> call, 0 without one) is in
  \<open>[200, 300)\<close>.
\<close>

lemma cache_get_miss:
  assumes "fst (cache_get key now c) = None"
  shows "entries (snd (cache_get key now c)) key = None
         \<and> ttl (snd (cache_get key now c)) = ttl c
         \<and> maxSize (snd (cache_get key now c)) = maxSize c"
proof (cases "entries c key")
  case None
  then show ?thesis by (simp add: cache_get_absent)
next
  case (Some entry)
  show ?thesis
  proof (cases "IsExpired now entry")
    case True
    then show ?thesis by (simp add: cache_get_expired [OF Some True])
  next
    case False
    with assms show ?thesis by (simp add: cache_get_hit [OF Some False])
  qed
qed

lemma cache_Wrap_miss:
  assumes get: "Method r = ''GET''"
    and miss: "fst (cache_get (generateCacheKey md5hex r) t_get c) = None"
  shows "cache_Wrap md5hex c next t_get t_set w r =
     (let key = generateCacheKey md5hex r;
          c1 = snd (cache_get key t_get c);
          wr = wrapper_ops (next r) \<lparr>inner = w, body = [], headers = Map.empty, statusCode = 0\<rparr>;
          e = \<lparr>Body = body wr, Headers = headers wr, StatusCode = statusCode wr,
               ExpiresAt = t_set + ttl c\<rparr>
      in Some
           (if 200 \<le> statusCode wr \<and> statusCode wr < 300
            then (if currentSize c1 + 1 > maxSize c1
                  then c1\<lparr>entries := ((entries c1)(key \<mapsto> e))(last (key # lru c1) := None),
                          lru := butlast (key # lru c1), currentSize := currentSize c1\<rparr>
                  else c1\<lparr>entries := (entries c1)(key \<mapsto> e), lru := key # lru c1,
                          currentSize := currentSize c1 + 1\<rparr>)
            else c1,
            base_ops (next r) w))"
proof -
  let ?key = "generateCacheKey md5hex r"
  let ?wr = "wrapper_ops (next r) \<lparr>inner = w, body = [], headers = Map.empty, statusCode = 0\<rparr>"
  let ?e = "\<lparr>Body = body ?wr, Headers = headers ?wr, StatusCode = statusCode ?wr,
             ExpiresAt = t_set + ttl c\<rparr>"
  define c1 where "c1 = snd (cache_get ?key t_get c)"
  from cache_get_miss [OF miss]
  have a: "entries c1 ?key = None" and t: "ttl c1 = ttl c" by (simp_all add: c1_def)
  have g: "cache_get ?key t_get c = (None, c1)"
    using miss unfolding c1_def by (cases "cache_get ?key t_get c") simp
  have i: "inner ?wr = base_ops (next r) w" by (simp add: wrapper_ops_inner)
  consider (low) "statusCode ?wr < 200" | (ok) "200 \<le> statusCode ?wr" "statusCode ?wr < 300"
    | (high) "300 \<le> statusCode ?wr"
    by linarith
  then show ?thesis
  proof cases
    case low
    then show ?thesis
      using get by (simp add: cache_Wrap_def Let_def g i)
  next
    case high
    then show ?thesis
      using get by (simp add: cache_Wrap_def Let_def g i)
  next
    case ok
    show ?thesis
    proof (cases "currentSize c1 + 1 > maxSize c1")
      case ev: True
      from cache_set_insert_evict [OF a ev, of ?e] ok ev get show ?thesis
        by (simp add: cache_Wrap_def Let_def g i t)
    next
      case nev: False
      from cache_set_insert [OF a nev, of ?e] ok nev get show ?thesis
        by (simp add: cache_Wrap_def Let_def g i t)
    qed
  qed
qed

text \<open>
  A handler that calls \<^verbatim>\<open>WriteHeader(200)\<close> before it writes its body: the client
  receives status 200, and the response is stored under the key of the request.
\<close>

lemma cache_Wrap_explicit_ok_cached:
  "map_option (lru \<circ> fst)
       (cache_Wrap md5hex ex_cache ex_handler_ok t_get t_set NewResponseWriter ex_request)
     = Some [generateCacheKey md5hex ex_request]
   \<and> map_option (rw_status \<circ> snd)
       (cache_Wrap md5hex ex_cache ex_handler_ok t_get t_set NewResponseWriter ex_request)
     = Some (Some 200)"
  by (simp add: cache_Wrap_def ex_cache_def NewCache_def ex_request_def cache_get_def
        ex_handler_ok_def wrapper_Write_def wrapper_WriteHeader_def base_Write_def
        base_WriteHeader_def NewResponseWriter_def Let_def cache_set_def addToFront_def)

text \<open>
  C6 on a handler that writes its body without calling \<^verbatim>\<open>WriteHeader\<close>: the client
  receives status 200 and the body, the wrapper's \<^verbatim>\<open>statusCode\<close> is still 0, and
  the cache is left as it was, without an entry for the request.
\<close>

theorem cache_Wrap_body_only_not_cached:
  "cache_Wrap md5hex ex_cache ex_handler_body_only t_get t_set NewResponseWriter ex_request
     = Some (ex_cache, \<lparr>rw_header = Map.empty, rw_status = Some 200, rw_body = ''ok''\<rparr>)
   \<and> lru ex_cache = [] \<and> currentSize ex_cache = 0
   \<and> entries ex_cache (generateCacheKey md5hex ex_request) = None"
  by (simp add: cache_Wrap_def ex_cache_def NewCache_def ex_request_def cache_get_def
        ex_handler_body_only_def wrapper_Write_def base_Write_def base_WriteHeader_def
        NewResponseWriter_def Let_def)

section \<open>What the round-robin and the least-connections balancer return\<close>

text \<open>
  The least-connections balancer returns \<^verbatim>\<open>no backends available\<close> exactly for the
  empty pool, \<^verbatim>\<open>no healthy backends available\<close> exactly for a non-empty pool without
  a healthy backend, and otherwise a healthy backend of the pool.
\<close>

lemma lc_scan_None:
  "(sel = None \<longrightarrow> m = -1) \<Longrightarrow>
   fst (lc_scan bs sel m) = None \<longleftrightarrow> sel = None \<and> \<not> list_ex healthy bs"
  by (induction bs arbitrary: sel m) auto

lemma lc_scan_Some:
  "fst (lc_scan bs sel m) = Some b \<Longrightarrow> sel = Some b \<or> (b \<in> set bs \<and> healthy b)"
  by (induction bs arbitrary: sel m) (auto split: if_splits)

lemma lc_SelectBackend_correct:
  "(lc_SelectBackend bs = Inl NoBackend \<longleftrightarrow> bs = [])
   \<and> (lc_SelectBackend bs = Inl NoHealthyBackend \<longleftrightarrow> bs \<noteq> [] \<and> \<not> list_ex healthy bs)
   \<and> (\<forall>b. lc_SelectBackend bs = Inr b \<longrightarrow> b \<in> set bs \<and> healthy b)"
proof -
  have n: "fst (lc_scan bs None (-1)) = None \<longleftrightarrow> \<not> list_ex healthy bs"
    using lc_scan_None [of None "-1" bs] by simp
  have s: "fst (lc_scan bs None (-1)) = Some b \<Longrightarrow> b \<in> set bs \<and> healthy b" for b
    using lc_scan_Some [of bs None "-1" b] by simp
  show ?thesis
    using n s by (auto simp: lc_SelectBackend_def split: option.splits)
qed

text \<open>
  The same for the round-robin balancer, in every state with \<^verbatim>\<open>current\<close> inside the
  pool, which the call preserves; the call always returns.
\<close>

lemma rr_dist_inj:
  "i < n \<Longrightarrow> j < n \<Longrightarrow> start < n \<Longrightarrow> rr_dist n start i = rr_dist n start j \<Longrightarrow> i = j"
  by (auto simp: rr_dist_def split: if_splits)

lemma rr_dist_pos: "i < n \<Longrightarrow> start < n \<Longrightarrow> 1 \<le> rr_dist n start i"
  by (auto simp: rr_dist_def)

lemma rr_dist_le: "i < n \<Longrightarrow> start < n \<Longrightarrow> rr_dist n start i \<le> n"
  by (auto simp: rr_dist_def)

lemma rr_dist_start: "rr_dist n start start = n"
  by (simp add: rr_dist_def)

lemma rr_next_cases:
  fixes cur n :: nat
  assumes "cur < n"
  shows "(cur + 1 < n \<and> (cur + 1) mod n = cur + 1) \<or> (cur + 1 = n \<and> (cur + 1) mod n = 0)"
proof (cases "cur + 1 = n")
  case True
  then have "(cur + 1) mod n = 0" by simp
  with True show ?thesis by simp
next
  case False
  with assms have "cur + 1 < n" by simp
  then have "cur + 1 < n \<and> (cur + 1) mod n = cur + 1" by simp
  then show ?thesis ..
qed

lemma rr_dist_next_start:
  assumes "cur < n" and "start < n" and "(cur + 1) mod n = start"
  shows "rr_dist n start cur = 1"
  using rr_next_cases [OF assms(1)] assms by (auto simp: rr_dist_def)

lemma rr_dist_next:
  assumes "cur < n" and "start < n" and "(cur + 1) mod n \<noteq> start"
  shows "rr_dist n start ((cur + 1) mod n) + 1 = rr_dist n start cur"
  using rr_next_cases [OF assms(1)] assms by (auto simp: rr_dist_def)

lemma rr_loop_Some:
  "cur < length bs \<Longrightarrow> start < length bs \<Longrightarrow>
   \<exists>res c'. rr_loop bs start cur = Some (res, c') \<and> c' < length bs
     \<and> (res = Inl NoHealthyBackend
         \<or> (\<exists>i. i < length bs \<and> healthy (bs ! i) \<and> res = Inr (i, bs ! i)))"
proof (induction bs start cur rule: rr_loop.induct)
  case (1 bs start cur)
  let ?c' = "(cur + 1) mod length bs"
  from "1.prems"(1) have "0 < length bs" by auto
  then have c': "?c' < length bs" by (rule mod_less_divisor)
  show ?case
  proof (cases "healthy (bs ! cur)")
    case True
    with "1.prems" c' show ?thesis
      by (subst rr_loop.simps) (auto simp: Let_def)
  next
    case False
    show ?thesis
    proof (cases "?c' = start")
      case True
      with False "1.prems" show ?thesis
        by (subst rr_loop.simps) (auto simp: Let_def)
    next
      case neq: False
      have e: "rr_loop bs start cur = rr_loop bs start ?c'"
        using False neq "1.prems" by (subst rr_loop.simps) (simp add: Let_def)
      have "\<not> \<not> (cur < length bs \<and> start < length bs)" using "1.prems" by simp
      from "1.IH" [OF this refl refl False neq c' "1.prems"(2)] e
      show ?thesis by simp
    qed
  qed
qed

lemma rr_loop_NoHealthy:
  "cur < length bs \<Longrightarrow> start < length bs \<Longrightarrow>
   rr_loop bs start cur = Some (Inl NoHealthyBackend, c') \<Longrightarrow>
   i < length bs \<Longrightarrow> rr_dist (length bs) start i \<le> rr_dist (length bs) start cur \<Longrightarrow>
   \<not> healthy (bs ! i)"
proof (induction bs start cur arbitrary: i rule: rr_loop.induct)
  case (1 bs start cur)
  let ?n = "length bs"
  let ?c' = "(cur + 1) mod ?n"
  from "1.prems"(1) have "0 < ?n" by auto
  then have c': "?c' < ?n" by (rule mod_less_divisor)
  have unh: "\<not> healthy (bs ! cur)"
  proof
    assume "healthy (bs ! cur)"
    with "1.prems"(1,2) have "rr_loop bs start cur = Some (Inr (cur, bs ! cur), ?c')"
      by (subst rr_loop.simps) (simp add: Let_def)
    with "1.prems"(3) show False by simp
  qed
  show ?case
  proof (cases "?c' = start")
    case True
    from rr_dist_next_start [OF "1.prems"(1,2) True] have "rr_dist ?n start cur = 1" .
    with "1.prems"(5) rr_dist_pos [OF "1.prems"(4) "1.prems"(2)]
    have "rr_dist ?n start i = rr_dist ?n start cur" by simp
    from rr_dist_inj [OF "1.prems"(4) "1.prems"(1) "1.prems"(2) this] unh show ?thesis by simp
  next
    case neq: False
    have e: "rr_loop bs start cur = rr_loop bs start ?c'"
      using unh neq "1.prems" by (subst rr_loop.simps) (simp add: Let_def)
    have g: "\<not> \<not> (cur < length bs \<and> start < length bs)" using "1.prems" by simp
    show ?thesis
    proof (cases "rr_dist ?n start i = rr_dist ?n start cur")
      case True
      from rr_dist_inj [OF "1.prems"(4) "1.prems"(1) "1.prems"(2) this] unh show ?thesis by simp
    next
      case False
      with "1.prems"(5) rr_dist_next [OF "1.prems"(1,2) neq]
      have le: "rr_dist ?n start i \<le> rr_dist ?n start ?c'" by simp
      from "1.prems"(3) e have r: "rr_loop bs start ?c' = Some (Inl NoHealthyBackend, c')" by simp
      from "1.IH" [OF g refl refl unh neq c' "1.prems"(2) r "1.prems"(4) le]
      show ?thesis .
    qed
  qed
qed

lemma rr_SelectBackend_correct:
  assumes "rr_backends rb = [] \<or> rr_current rb < length (rr_backends rb)"
  shows "\<exists>res rb'. rr_SelectBackend rb = Some (res, rb')
           \<and> rr_backends rb' = rr_backends rb
           \<and> (rr_backends rb' = [] \<or> rr_current rb' < length (rr_backends rb'))
           \<and> (res = Inl NoBackend \<longleftrightarrow> rr_backends rb = [])
           \<and> (res = Inl NoHealthyBackend
                \<longleftrightarrow> rr_backends rb \<noteq> [] \<and> \<not> list_ex healthy (rr_backends rb))
           \<and> (\<forall>i b. res = Inr (i, b)
                \<longrightarrow> i < length (rr_backends rb) \<and> b = rr_backends rb ! i \<and> healthy b)"
proof (cases "rr_backends rb = []")
  case True
  then show ?thesis by (simp add: rr_SelectBackend_def)
next
  case False
  let ?bs = "rr_backends rb"
  let ?c = "rr_current rb"
  from False assms have c: "?c < length ?bs" by simp
  from rr_loop_Some [OF c c] obtain res c' where
    l: "rr_loop ?bs ?c ?c = Some (res, c')" and c': "c' < length ?bs"
    and r: "res = Inl NoHealthyBackend \<or> (\<exists>i. i < length ?bs \<and> healthy (?bs ! i) \<and> res = Inr (i, ?bs ! i))"
    by blast
  have sel: "rr_SelectBackend rb = Some (res, rb\<lparr>rr_current := c'\<rparr>)"
    using False l by (simp add: rr_SelectBackend_def)
  have nh: "res = Inl NoHealthyBackend \<longleftrightarrow> \<not> list_ex healthy ?bs"
  proof
    assume e: "res = Inl NoHealthyBackend"
    have "\<not> healthy (?bs ! i)" if "i < length ?bs" for i
    proof -
      have "rr_dist (length ?bs) ?c i \<le> rr_dist (length ?bs) ?c ?c"
        using rr_dist_le [OF that c] by (simp add: rr_dist_start)
      from rr_loop_NoHealthy [OF c c l [unfolded e] that this] show ?thesis .
    qed
    then show "\<not> list_ex healthy ?bs" by (auto simp: list_ex_length)
  next
    assume "\<not> list_ex healthy ?bs"
    then have "\<not> healthy (?bs ! i)" if "i < length ?bs" for i
      using that by (auto simp: list_ex_length)
    with r show "res = Inl NoHealthyBackend" by blast
  qed
  from r have nb: "res \<noteq> Inl NoBackend" by auto
  from r have inr: "\<forall>i b. res = Inr (i, b) \<longrightarrow> i < length ?bs \<and> b = ?bs ! i \<and> healthy b"
    by auto
  show ?thesis
    unfolding sel using False c' nh nb inr by simp
qed

section \<open>Round-robin fairness\<close>












section \<open>The weighted selection against the specification\<close>

text \<open>
  What \<^verbatim>\<open>WeightedRoundRobinBalancer.SelectBackend\<close> does in every state whose
  \<^verbatim>\<open>currentWeights\<close> is as long as the pool: the first loop adds the weights of the
  healthy backends, keeps the largest updated weight above its starting value and the
  first index that attains it.
\<close>

lemma wrr_totalWeight_sum:
  "wrr_totalWeight bs t = t + sum_list (map weight (filter healthy bs))"
  by (induction bs arbitrary: t) simp_all

lemma wrr_totalWeight_spec: "wrr_totalWeight bs 0 = spec_wrr_total bs"
  by (simp add: wrr_totalWeight_sum spec_wrr_total_def)

lemma wrr_scan_unhealthy:
  "\<not> healthy b \<Longrightarrow> wrr_scan (b # bs) i cw sel mx = wrr_scan bs (Suc i) cw sel mx"
  by simp

lemma wrr_scan_greater:
  "healthy b \<Longrightarrow> i < length cw \<Longrightarrow> cw ! i + weight b > mx \<Longrightarrow>
   wrr_scan (b # bs) i cw sel mx
     = wrr_scan bs (Suc i) (cw[i := cw ! i + weight b]) (int i) (cw ! i + weight b)"
  by (simp add: Let_def)

lemma wrr_scan_not_greater:
  "healthy b \<Longrightarrow> i < length cw \<Longrightarrow> \<not> cw ! i + weight b > mx \<Longrightarrow>
   wrr_scan (b # bs) i cw sel mx = wrr_scan bs (Suc i) (cw[i := cw ! i + weight b]) sel mx"
  by (simp add: Let_def)

lemma wrr_scan_weights:
  "i + length bs = length cw \<Longrightarrow>
   fst (wrr_scan bs i cw sel mx) = take i cw @ spec_wrr_add bs (drop i cw)"
proof (induction bs arbitrary: i cw sel mx)
  case Nil
  then show ?case by (simp add: spec_wrr_add_def)
next
  case (Cons b bs)
  from Cons.prems have i: "i < length cw" by simp
  have d: "drop i cw = cw ! i # drop (Suc i) cw"
    using i by (simp add: Cons_nth_drop_Suc)
  have t: "take (Suc i) cw = take i cw @ [cw ! i]"
    using i by (simp add: take_Suc_conv_app_nth)
  show ?case
  proof (cases "healthy b")
    case False
    have "fst (wrr_scan (b # bs) i cw sel mx) = fst (wrr_scan bs (Suc i) cw sel mx)"
      by (simp only: wrr_scan_unhealthy [OF False])
    also have "\<dots> = take (Suc i) cw @ spec_wrr_add bs (drop (Suc i) cw)"
      using Cons.prems by (intro Cons.IH) simp
    also have "\<dots> = take i cw @ spec_wrr_add (b # bs) (drop i cw)"
      using False by (simp add: t d spec_wrr_add_def)
    finally show ?thesis .
  next
    case True
    let ?cw' = "cw[i := cw ! i + weight b]"
    have l: "Suc i + length bs = length ?cw'" using Cons.prems by simp
    have t': "take (Suc i) ?cw' = take i cw @ [cw ! i + weight b]"
      using i by (simp add: take_Suc_conv_app_nth)
    have d': "drop (Suc i) ?cw' = drop (Suc i) cw" by simp
    have "\<exists>s m. wrr_scan (b # bs) i cw sel mx = wrr_scan bs (Suc i) ?cw' s m"
    proof (cases "cw ! i + weight b > mx")
      case True
      from wrr_scan_greater [OF \<open>healthy b\<close> i True] show ?thesis by blast
    next
      case False
      from wrr_scan_not_greater [OF \<open>healthy b\<close> i False] show ?thesis by blast
    qed
    then obtain s m where "wrr_scan (b # bs) i cw sel mx = wrr_scan bs (Suc i) ?cw' s m"
      by blast
    then have "fst (wrr_scan (b # bs) i cw sel mx) = fst (wrr_scan bs (Suc i) ?cw' s m)"
      by simp
    also have "\<dots> = take (Suc i) ?cw' @ spec_wrr_add bs (drop (Suc i) ?cw')"
      using l by (rule Cons.IH)
    also have "\<dots> = take i cw @ spec_wrr_add (b # bs) (drop i cw)"
      using True by (simp only: t' d' d) (simp add: spec_wrr_add_def)
    finally show ?thesis .
  qed
qed

lemma wrr_scan_max_mono:
  "i + length bs = length cw \<Longrightarrow> mx \<le> snd (snd (wrr_scan bs i cw sel mx))"
proof (induction bs arbitrary: i cw sel mx)
  case Nil
  then show ?case by simp
next
  case (Cons b bs)
  from Cons.prems have i: "i < length cw" by simp
  let ?v = "cw ! i + weight b"
  let ?cw' = "cw[i := ?v]"
  have l: "Suc i + length bs = length cw" "Suc i + length bs = length ?cw'"
    using Cons.prems by simp_all
  show ?case
  proof (cases "healthy b")
    case False
    from Cons.IH [OF l(1), where mx = mx and sel = sel] show ?thesis
      by (simp only: wrr_scan_unhealthy [OF False])
  next
    case True
    show ?thesis
    proof (cases "?v > mx")
      case gt: True
      from Cons.IH [OF l(2), where mx = ?v and sel = "int i"] gt show ?thesis
        by (simp only: wrr_scan_greater [OF True i gt])
    next
      case le: False
      from Cons.IH [OF l(2), where mx = mx and sel = sel] show ?thesis
        by (simp only: wrr_scan_not_greater [OF True i le])
    qed
  qed
qed

lemma wrr_scan_upper:
  "i + length bs = length cw \<Longrightarrow> j < length bs \<Longrightarrow> healthy (bs ! j) \<Longrightarrow>
   cw ! (i + j) + weight (bs ! j) \<le> snd (snd (wrr_scan bs i cw sel mx))"
proof (induction bs arbitrary: i cw sel mx j)
  case Nil
  then show ?case by simp
next
  case (Cons b bs)
  from Cons.prems have i: "i < length cw" by simp
  let ?v = "cw ! i + weight b"
  let ?cw' = "cw[i := ?v]"
  have l: "Suc i + length bs = length cw" "Suc i + length bs = length ?cw'"
    using Cons.prems by simp_all
  have nth': "?cw' ! (Suc i + j') = cw ! (Suc i + j')" for j' by simp
  show ?case
  proof (cases j)
    case 0
    with Cons.prems have hb: "healthy b" by simp
    show ?thesis
    proof (cases "?v > mx")
      case gt: True
      from wrr_scan_max_mono [OF l(2), where mx = ?v and sel = "int i"] 0 show ?thesis
        by (simp only: wrr_scan_greater [OF hb i gt]) simp
    next
      case le: False
      from wrr_scan_max_mono [OF l(2), where mx = mx and sel = sel] le 0 show ?thesis
        by (simp only: wrr_scan_not_greater [OF hb i le]) simp
    qed
  next
    case (Suc j')
    with Cons.prems have j': "j' < length bs" and hj: "healthy (bs ! j')" by simp_all
    have idx: "i + j = Suc i + j'" using Suc by simp
    have bj: "(b # bs) ! j = bs ! j'" using Suc by simp
    show ?thesis
    proof (cases "healthy b")
      case False
      from Cons.IH [OF l(1) j' hj, where mx = mx and sel = sel] show ?thesis
        by (simp only: wrr_scan_unhealthy [OF False] idx bj)
    next
      case True
      show ?thesis
      proof (cases "?v > mx")
        case gt: True
        from Cons.IH [OF l(2) j' hj, where mx = ?v and sel = "int i"] show ?thesis
          by (simp only: wrr_scan_greater [OF True i gt] idx bj nth')
      next
        case le: False
        from Cons.IH [OF l(2) j' hj, where mx = mx and sel = sel] show ?thesis
          by (simp only: wrr_scan_not_greater [OF True i le] idx bj nth')
      qed
    qed
  qed
qed

lemma all_less_SucI: "P 0 \<Longrightarrow> (\<forall>j<n. P (Suc j)) \<Longrightarrow> \<forall>j<Suc n. P j"
  by (simp add: All_less_Suc2)

lemma wrr_scan_choice:
  "i + length bs = length cw \<Longrightarrow>
   (fst (snd (wrr_scan bs i cw sel mx)) = sel \<and> snd (snd (wrr_scan bs i cw sel mx)) = mx)
   \<or> (\<exists>j<length bs.
         fst (snd (wrr_scan bs i cw sel mx)) = int (i + j)
         \<and> healthy (bs ! j)
         \<and> cw ! (i + j) + weight (bs ! j) = snd (snd (wrr_scan bs i cw sel mx))
         \<and> mx < snd (snd (wrr_scan bs i cw sel mx))
         \<and> (\<forall>j'<j. healthy (bs ! j')
               \<longrightarrow> cw ! (i + j') + weight (bs ! j') < snd (snd (wrr_scan bs i cw sel mx))))"
proof (induction bs arbitrary: i cw sel mx)
  case Nil
  then show ?case by simp
next
  case (Cons b bs)
  from Cons.prems have i: "i < length cw" by simp
  let ?v = "cw ! i + weight b"
  let ?cw' = "cw[i := ?v]"
  have l: "Suc i + length bs = length cw" "Suc i + length bs = length ?cw'"
    using Cons.prems by simp_all
  have nth': "?cw' ! (Suc i + j') = cw ! (Suc i + j')" for j' by simp
  let ?R = "wrr_scan (b # bs) i cw sel mx"
  have lift: "\<exists>j<length (b # bs).
         fst (snd ?R) = int (i + j) \<and> healthy ((b # bs) ! j)
         \<and> cw ! (i + j) + weight ((b # bs) ! j) = snd (snd ?R) \<and> mx < snd (snd ?R)
         \<and> (\<forall>j'<j. healthy ((b # bs) ! j')
               \<longrightarrow> cw ! (i + j') + weight ((b # bs) ! j') < snd (snd ?R))"
    if j: "j < length bs" and s: "fst (snd ?R) = int (Suc i + j)" and h: "healthy (bs ! j)"
      and v: "cw ! (Suc i + j) + weight (bs ! j) = snd (snd ?R)" and m: "mx < snd (snd ?R)"
      and e: "\<forall>j'<j. healthy (bs ! j') \<longrightarrow> cw ! (Suc i + j') + weight (bs ! j') < snd (snd ?R)"
      and z: "healthy b \<longrightarrow> ?v < snd (snd ?R)"
    for j
  proof (intro exI [of _ "Suc j"] conjI)
    show "Suc j < length (b # bs)" using j by simp
    show "fst (snd ?R) = int (i + Suc j)" using s by simp
    show "healthy ((b # bs) ! Suc j)" using h by simp
    show "cw ! (i + Suc j) + weight ((b # bs) ! Suc j) = snd (snd ?R)" using v by simp
    show "mx < snd (snd ?R)" by (rule m)
    show "\<forall>j'<Suc j. healthy ((b # bs) ! j')
            \<longrightarrow> cw ! (i + j') + weight ((b # bs) ! j') < snd (snd ?R)"
    proof (rule all_less_SucI)
      show "healthy ((b # bs) ! 0) \<longrightarrow> cw ! (i + 0) + weight ((b # bs) ! 0) < snd (snd ?R)"
        using z by simp
      show "\<forall>j'<j. healthy ((b # bs) ! Suc j')
              \<longrightarrow> cw ! (i + Suc j') + weight ((b # bs) ! Suc j') < snd (snd ?R)"
        using e by simp
    qed
  qed
  show ?case
  proof (cases "healthy b")
    case False
    have e: "?R = wrr_scan bs (Suc i) cw sel mx" by (rule wrr_scan_unhealthy [OF False])
    from Cons.IH [OF l(1), where mx = mx and sel = sel]
    show ?thesis
    proof (elim disjE exE conjE)
      assume "fst (snd (wrr_scan bs (Suc i) cw sel mx)) = sel"
        and "snd (snd (wrr_scan bs (Suc i) cw sel mx)) = mx"
      then show ?thesis unfolding e by simp
    next
      fix j
      assume a: "j < length bs" "fst (snd (wrr_scan bs (Suc i) cw sel mx)) = int (Suc i + j)"
        "healthy (bs ! j)"
        "cw ! (Suc i + j) + weight (bs ! j) = snd (snd (wrr_scan bs (Suc i) cw sel mx))"
        "mx < snd (snd (wrr_scan bs (Suc i) cw sel mx))"
        "\<forall>j'<j. healthy (bs ! j')
           \<longrightarrow> cw ! (Suc i + j') + weight (bs ! j') < snd (snd (wrr_scan bs (Suc i) cw sel mx))"
      have "healthy b \<longrightarrow> ?v < snd (snd ?R)" using False by simp
      from lift [OF a(1) a(2) [folded e] a(3) a(4) [folded e] a(5) [folded e] a(6) [folded e] this]
      show ?thesis by (rule disjI2)
    qed
  next
    case True
    show ?thesis
    proof (cases "?v > mx")
      case gt: True
      have e: "?R = wrr_scan bs (Suc i) ?cw' (int i) ?v" by (rule wrr_scan_greater [OF True i gt])
      from Cons.IH [OF l(2), where mx = ?v and sel = "int i"]
      show ?thesis
      proof (elim disjE exE conjE)
        assume s: "fst (snd (wrr_scan bs (Suc i) ?cw' (int i) ?v)) = int i"
          and m: "snd (snd (wrr_scan bs (Suc i) ?cw' (int i) ?v)) = ?v"
        have "\<exists>j<length (b # bs).
                fst (snd ?R) = int (i + j) \<and> healthy ((b # bs) ! j)
                \<and> cw ! (i + j) + weight ((b # bs) ! j) = snd (snd ?R) \<and> mx < snd (snd ?R)
                \<and> (\<forall>j'<j. healthy ((b # bs) ! j')
                      \<longrightarrow> cw ! (i + j') + weight ((b # bs) ! j') < snd (snd ?R))"
          unfolding e using s m True gt by (intro exI [of _ 0]) simp
        then show ?thesis by (rule disjI2)
      next
        fix j
        assume a: "j < length bs"
          "fst (snd (wrr_scan bs (Suc i) ?cw' (int i) ?v)) = int (Suc i + j)"
          "healthy (bs ! j)"
          "?cw' ! (Suc i + j) + weight (bs ! j) = snd (snd (wrr_scan bs (Suc i) ?cw' (int i) ?v))"
          "?v < snd (snd (wrr_scan bs (Suc i) ?cw' (int i) ?v))"
          "\<forall>j'<j. healthy (bs ! j')
             \<longrightarrow> ?cw' ! (Suc i + j') + weight (bs ! j')
                   < snd (snd (wrr_scan bs (Suc i) ?cw' (int i) ?v))"
        have m: "mx < snd (snd ?R)" unfolding e using gt a(5) by simp
        have z: "healthy b \<longrightarrow> ?v < snd (snd ?R)" unfolding e using a(5) by simp
        from lift [OF a(1) a(2) [folded e] a(3) a(4) [unfolded nth', folded e] m
            a(6) [unfolded nth', folded e] z]
        show ?thesis by (rule disjI2)
      qed
    next
      case le: False
      have e: "?R = wrr_scan bs (Suc i) ?cw' sel mx" by (rule wrr_scan_not_greater [OF True i le])
      from Cons.IH [OF l(2), where mx = mx and sel = sel]
      show ?thesis
      proof (elim disjE exE conjE)
        assume "fst (snd (wrr_scan bs (Suc i) ?cw' sel mx)) = sel"
          and "snd (snd (wrr_scan bs (Suc i) ?cw' sel mx)) = mx"
        then show ?thesis unfolding e by simp
      next
        fix j
        assume a: "j < length bs"
          "fst (snd (wrr_scan bs (Suc i) ?cw' sel mx)) = int (Suc i + j)"
          "healthy (bs ! j)"
          "?cw' ! (Suc i + j) + weight (bs ! j) = snd (snd (wrr_scan bs (Suc i) ?cw' sel mx))"
          "mx < snd (snd (wrr_scan bs (Suc i) ?cw' sel mx))"
          "\<forall>j'<j. healthy (bs ! j')
             \<longrightarrow> ?cw' ! (Suc i + j') + weight (bs ! j')
                   < snd (snd (wrr_scan bs (Suc i) ?cw' sel mx))"
        have z: "healthy b \<longrightarrow> ?v < snd (snd ?R)" unfolding e using le a(5) by simp
        from lift [OF a(1) a(2) [folded e] a(3) a(4) [unfolded nth', folded e] a(5) [folded e]
            a(6) [unfolded nth', folded e] z]
        show ?thesis by (rule disjI2)
      qed
    qed
  qed
qed

lemma spec_wrr_add_nth:
  "length cw = length bs \<Longrightarrow> j < length bs \<Longrightarrow>
   spec_wrr_add bs cw ! j = (if healthy (bs ! j) then cw ! j + weight (bs ! j) else cw ! j)"
  by (simp add: spec_wrr_add_def)

lemma hd_filter_upt:
  assumes "k < n" and "R k" and "\<forall>j<k. \<not> R j"
  shows "hd (filter R [0..<n]) = k"
proof -
  have "[0..<k + (n - k)] = [0..<k] @ [k..<k + (n - k)]"
    by (rule upt_add_eq_append) simp
  moreover have "k + (n - k) = n" using assms(1) by simp
  moreover have "[k..<n] = k # [Suc k..<n]" using assms(1) by (rule upt_conv_Cons)
  ultimately have "[0..<n] = [0..<k] @ k # [Suc k..<n]" by simp
  moreover have "filter R [0..<k] = []" using assms(3) by (simp add: filter_empty_conv)
  ultimately show ?thesis using assms(2) by simp
qed

lemma spec_wrr_k_eq:
  assumes len: "length cw1 = length bs"
    and k: "k < length bs" and hk: "healthy (bs ! k)" and mk: "cw1 ! k = m"
    and up: "\<forall>j<length bs. healthy (bs ! j) \<longrightarrow> cw1 ! j \<le> m"
    and first: "\<forall>j<k. healthy (bs ! j) \<longrightarrow> cw1 ! j < m"
  shows "spec_wrr_k bs cw1 = k"
proof -
  let ?hs = "spec_healthy_indices bs"
  have kin: "k \<in> set ?hs" using k hk by (simp add: spec_healthy_indices_def)
  then have ne: "?hs \<noteq> []" by auto
  then have hdin: "hd ?hs \<in> set ?hs" by simp
  have "fold max (map (\<lambda>i. cw1 ! i) ?hs) (cw1 ! hd ?hs)
          = Max (set (cw1 ! hd ?hs # map (\<lambda>i. cw1 ! i) ?hs))"
    by (rule Max.set_eq_fold [symmetric])
  also have "set (cw1 ! hd ?hs # map (\<lambda>i. cw1 ! i) ?hs) = (\<lambda>i. cw1 ! i) ` set ?hs"
    using hdin by auto
  also have "Max ((\<lambda>i. cw1 ! i) ` set ?hs) = m"
  proof (rule Max_eqI)
    show "finite ((\<lambda>i. cw1 ! i) ` set ?hs)" by simp
    show "y \<le> m" if "y \<in> (\<lambda>i. cw1 ! i) ` set ?hs" for y
      using that up by (auto simp: spec_healthy_indices_def)
    show "m \<in> (\<lambda>i. cw1 ! i) ` set ?hs" using kin mk by auto
  qed
  finally have m: "fold max (map (\<lambda>i. cw1 ! i) ?hs) (cw1 ! hd ?hs) = m" .
  have "spec_wrr_k bs cw1 = hd (filter (\<lambda>i. cw1 ! i = m) ?hs)"
    by (simp add: spec_wrr_k_def Let_def m)
  also have "\<dots> = hd (filter (\<lambda>i. healthy (bs ! i) \<and> cw1 ! i = m) [0..<length bs])"
    by (simp add: spec_healthy_indices_def conj_commute)
  also have "\<dots> = k"
  proof (rule hd_filter_upt [OF k])
    show "healthy (bs ! k) \<and> cw1 ! k = m" using hk mk by simp
    show "\<forall>j<k. \<not> (healthy (bs ! j) \<and> cw1 ! j = m)" using first by auto
  qed
  finally show ?thesis .
qed

text \<open>
  So the call does the selection of the specification exactly when some healthy
  backend has an updated current weight above \<open>-1\<close>. When the pool has healthy
  backends and none of them gets above \<open>-1\<close>, the weights are added and the call
  returns \<^verbatim>\<open>no healthy backends available\<close>.
\<close>

lemma wrr_SelectBackend_characterisation:
  assumes len: "length (currentWeights wrr) = length (wrr_backends wrr)"
  shows "wrr_SelectBackend wrr =
     (if wrr_backends wrr = [] then (Inl NoBackend, wrr)
      else if \<exists>j<length (wrr_backends wrr).
                healthy (wrr_backends wrr ! j)
                \<and> currentWeights wrr ! j + weight (wrr_backends wrr ! j) > -1
      then (Inr (fst (spec_wrr_select (wrr_backends wrr) (currentWeights wrr))),
            wrr\<lparr>currentWeights := snd (spec_wrr_select (wrr_backends wrr) (currentWeights wrr))\<rparr>)
      else (Inl NoHealthyBackend,
            wrr\<lparr>currentWeights := spec_wrr_add (wrr_backends wrr) (currentWeights wrr)\<rparr>))"
proof (cases "wrr_backends wrr = []")
  case True
  then show ?thesis by (simp add: wrr_SelectBackend_def)
next
  case False
  let ?bs = "wrr_backends wrr"
  let ?cw = "currentWeights wrr"
  let ?R = "wrr_scan ?bs 0 ?cw (-1) (-1)"
  let ?cw1 = "spec_wrr_add ?bs ?cw"
  have l: "0 + length ?bs = length ?cw" using len by simp
  have w: "fst ?R = ?cw1" using wrr_scan_weights [OF l] by simp
  have len1: "length ?cw1 = length ?bs" using len by (simp add: spec_wrr_add_def)
  have R: "?R = (?cw1, fst (snd ?R), snd (snd ?R))" using w by (metis prod.collapse)
  show ?thesis
  proof (cases "\<exists>j<length ?bs. healthy (?bs ! j) \<and> ?cw ! j + weight (?bs ! j) > -1")
    case True
    then obtain j where j: "j < length ?bs" "healthy (?bs ! j)" "?cw ! j + weight (?bs ! j) > -1"
      by blast
    from wrr_scan_upper [OF l j(1) j(2), of "-1" "-1"] j(3)
    have mgt: "snd (snd ?R) > -1" by simp
    from wrr_scan_choice [OF l, of "-1" "-1"] mgt
    obtain k where k: "k < length ?bs" "fst (snd ?R) = int k" "healthy (?bs ! k)"
      "?cw ! k + weight (?bs ! k) = snd (snd ?R)"
      "\<forall>j'<k. healthy (?bs ! j') \<longrightarrow> ?cw ! j' + weight (?bs ! j') < snd (snd ?R)"
      by auto
    have up: "\<forall>j<length ?bs. healthy (?bs ! j) \<longrightarrow> ?cw1 ! j \<le> snd (snd ?R)"
    proof (intro allI impI)
      fix j assume a: "j < length ?bs" "healthy (?bs ! j)"
      from wrr_scan_upper [OF l a(1) a(2), of "-1" "-1"] a
      show "?cw1 ! j \<le> snd (snd ?R)" by (simp add: spec_wrr_add_nth [OF len])
    qed
    have first: "\<forall>j<k. healthy (?bs ! j) \<longrightarrow> ?cw1 ! j < snd (snd ?R)"
    proof (intro allI impI)
      fix j assume a: "j < k" "healthy (?bs ! j)"
      with k(1) have "j < length ?bs" by simp
      with k(5) a show "?cw1 ! j < snd (snd ?R)" by (simp add: spec_wrr_add_nth [OF len])
    qed
    have mk: "?cw1 ! k = snd (snd ?R)" using k by (simp add: spec_wrr_add_nth [OF len])
    have sk: "spec_wrr_k ?bs ?cw1 = k"
      using len1 k(1) k(3) mk up first by (rule spec_wrr_k_eq)
    have spec: "spec_wrr_select ?bs ?cw = ((k, ?bs ! k), ?cw1[k := ?cw1 ! k - spec_wrr_total ?bs])"
      by (simp add: spec_wrr_select_def Let_def sk)
    have code: "wrr_SelectBackend wrr
                  = (Inr (k, ?bs ! k), wrr\<lparr>currentWeights := ?cw1[k := ?cw1 ! k - spec_wrr_total ?bs]\<rparr>)"
      unfolding wrr_SelectBackend_def
      by (subst R) (simp add: False k(2) Let_def wrr_totalWeight_spec)
    show ?thesis using False True by (simp only: code spec if_False if_True fst_conv snd_conv)
  next
    case none: False
    have "fst (snd ?R) = -1"
    proof -
      from wrr_scan_choice [OF l, of "-1" "-1"]
      show ?thesis
      proof (elim disjE exE conjE)
        assume "fst (snd ?R) = -1" then show ?thesis .
      next
        fix j
        assume a: "j < length ?bs" "healthy (?bs ! j)"
          "?cw ! (0 + j) + weight (?bs ! j) = snd (snd ?R)" "-1 < snd (snd ?R)"
        then have "?cw ! j + weight (?bs ! j) > -1" by simp
        with a(1) a(2) none show ?thesis by blast
      qed
    qed
    then have code: "wrr_SelectBackend wrr = (Inl NoHealthyBackend, wrr\<lparr>currentWeights := ?cw1\<rparr>)"
      unfolding wrr_SelectBackend_def
      by (subst R) (simp add: False)
    show ?thesis using False none by (simp only: code if_False)
  qed
qed

section \<open>The sentinel of the smooth weighted selection\<close>

lemma ex_wrr3_state:
  "ex_wrr3 = \<lparr>wrr_backends =
       [\<lparr>url = ''http://b1.example.com'', healthy = True, connections = 0, weight = 1\<rparr>,
        \<lparr>url = ''http://b2.example.com'', healthy = False, connections = 0, weight = 1\<rparr>,
        \<lparr>url = ''http://b3.example.com'', healthy = False, connections = 0, weight = 1\<rparr>],
     currentWeights = [-2, 1, 1]\<rparr>"
  by (simp add: ex_wrr3_def ex_pool3_def wrr_SelectBackend_def NewWeightedRoundRobinBalancer_def
        NewHTTPBackend_def wrr_UpdateBackendHealth_def)

text \<open>
  C1 at a state the balancer reaches: three backends of weight 1, one selection (the
  first backend, whose current weight drops to \<open>-2\<close>), then the second and the third
  backend are marked unhealthy. The pool is non-empty and its first backend is healthy,
  yet \<^verbatim>\<open>SelectBackend\<close> returns the error \<^verbatim>\<open>no healthy backends available\<close>: the
  updated current weight \<open>-1\<close> is not greater than the initial \<^verbatim>\<open>maxCurrentWeight\<close> of
  \<open>-1\<close>. The weight was added and nothing subtracted. The selection of the
  specification returns the first backend and leaves its current weight at \<open>-2\<close>.
\<close>

theorem wrr_select_refuses_healthy_backend:
  "wrr_backends ex_wrr3 \<noteq> [] \<and> healthy (wrr_backends ex_wrr3 ! 0)
   \<and> currentWeights ex_wrr3 = [-2, 1, 1]
   \<and> fst (wrr_SelectBackend ex_wrr3) = Inl NoHealthyBackend
   \<and> currentWeights (snd (wrr_SelectBackend ex_wrr3)) = [-1, 1, 1]
   \<and> spec_wrr_select (wrr_backends ex_wrr3) (currentWeights ex_wrr3)
       = ((0, wrr_backends ex_wrr3 ! 0), [-2, 1, 1])"
  by (simp add: ex_wrr3_state wrr_SelectBackend_def spec_wrr_select_def spec_wrr_add_def
        spec_wrr_k_def spec_healthy_indices_def spec_wrr_total_def Let_def upt_rec)

lemma ex_wrr2_state:
  "ex_wrr2 = \<lparr>wrr_backends =
       [\<lparr>url = ''http://b1.example.com'', healthy = True, connections = 0, weight = 1\<rparr>,
        \<lparr>url = ''http://b2.example.com'', healthy = False, connections = 0, weight = 3\<rparr>],
     currentWeights = [-2, 2]\<rparr>"
  by (simp add: ex_wrr2_def ex_pool2_def wrr_SelectBackend_def NewWeightedRoundRobinBalancer_def
        NewHTTPBackend_def wrr_UpdateBackendHealth_def)

text \<open>
  C8 at a state the weighted balancer reaches: backends of weights 1 and 3, two
  selections, then the second backend is marked unhealthy. The pool is non-empty and
  has a healthy backend, and \<^verbatim>\<open>SelectBackend\<close> returns the error
  \<^verbatim>\<open>no healthy backends available\<close>.
\<close>

theorem wrr_no_healthy_error_with_healthy_backend:
  "wrr_backends ex_wrr2 \<noteq> [] \<and> list_ex healthy (wrr_backends ex_wrr2)
   \<and> fst (wrr_SelectBackend ex_wrr2) = Inl NoHealthyBackend"
  by (simp add: ex_wrr2_state wrr_SelectBackend_def)

end
